theory Spec2Isabelle
  imports Main
begin

unbundle bit_operations_syntax

section \<open>JavaScript values used by the sources\<close>

text \<open>
  The sources compute with \<open>bigint\<close> (unbounded integers, modelled as \<open>int\<close>) and with
  arrays. Two things differ from HOL and are written out:
  the \<open>%\<close> and \<open>/\<close> operators of \<open>bigint\<close> truncate towards zero and raise a
  \<open>RangeError\<close> on a zero divisor; an array read out of range yields \<open>undefined\<close>,
  and arithmetic mixing \<open>undefined\<close> with a \<open>bigint\<close> raises a \<open>TypeError\<close>.
\<close>

datatype js_error = TypeError | RangeError

definition bigint_rem :: "int \<Rightarrow> int \<Rightarrow> int" where
  \<comment> \<open>\<open>a % b\<close> on bigints, for \<open>b \<noteq> 0\<close>: the sign follows the dividend.\<close>
  "bigint_rem a b = sgn a * (\<bar>a\<bar> mod \<bar>b\<bar>)"

definition bigint_div :: "int \<Rightarrow> int \<Rightarrow> int" where
  \<comment> \<open>\<open>a / b\<close> on bigints, for \<open>b \<noteq> 0\<close>: rounds towards zero.\<close>
  "bigint_div a b = sgn a * sgn b * (\<bar>a\<bar> div \<bar>b\<bar>)"

definition mod_norm :: "int \<Rightarrow> int \<Rightarrow> int" where
  \<comment> \<open>the idiom \<open>((v % q) + q) % q\<close>\<close>
  "mod_norm v q = bigint_rem (bigint_rem v q + q) q"

definition nth_opt :: "'a list \<Rightarrow> nat \<Rightarrow> 'a option" where
  \<comment> \<open>\<open>xs[i]\<close>: \<open>None\<close> stands for \<open>undefined\<close>\<close>
  "nth_opt xs i = (if i < length xs then Some (xs ! i) else None)"

section \<open>Constants (rlwe.ts, rlwe\_decrypt)\<close>

definition N :: nat where "N = 1024"
definition MSG_SLOTS :: nat where "MSG_SLOTS = 64"
definition RLWE_Q :: int where "RLWE_Q = 167772161"
definition PLAINTEXT_MOD :: int where "PLAINTEXT_MOD = 256"
definition DELTA :: int where "DELTA = bigint_div RLWE_Q PLAINTEXT_MOD"
definition BN254_P :: int where
  "BN254_P = 21888242871839275222246405745257275088548364400416034343698204186575808495617"

section \<open>Loops whose body may throw\<close>

definition bindE :: "js_error + 'a \<Rightarrow> ('a \<Rightarrow> js_error + 'b) \<Rightarrow> js_error + 'b" where
  "bindE m f = (case m of Inl e \<Rightarrow> Inl e | Inr x \<Rightarrow> f x)"

definition at :: "'a list \<Rightarrow> nat \<Rightarrow> js_error + 'a" where
  \<comment> \<open>an array element used as an operand of bigint arithmetic: \<open>undefined\<close> there
      raises a \<open>TypeError\<close>\<close>
  "at xs i = (case nth_opt xs i of None \<Rightarrow> Inl TypeError | Some v \<Rightarrow> Inr v)"

fun foldE :: "('a \<Rightarrow> 's \<Rightarrow> js_error + 's) \<Rightarrow> 'a list \<Rightarrow> 's \<Rightarrow> js_error + 's" where
  "foldE f [] s = Inr s"
| "foldE f (x # xs) s = (case f x s of Inl e \<Rightarrow> Inl e | Inr s' \<Rightarrow> foldE f xs s')"

fun mapE :: "('a \<Rightarrow> js_error + 'b) \<Rightarrow> 'a list \<Rightarrow> js_error + 'b list" where
  "mapE f [] = Inr []"
| "mapE f (x # xs) =
     (case f x of Inl e \<Rightarrow> Inl e
      | Inr y \<Rightarrow> (case mapE f xs of Inl e \<Rightarrow> Inl e | Inr ys \<Rightarrow> Inr (y # ys)))"

section \<open>Field and ring arithmetic\<close>

subsection \<open>modPow, centeredMod (threshold decryption module)\<close>

function modPow_loop :: "int \<Rightarrow> int \<Rightarrow> int \<Rightarrow> int \<Rightarrow> int" where
  "modPow_loop result base exp m =
     (if exp > 0
      then modPow_loop (if exp AND 1 \<noteq> 0 then bigint_rem (result * base) m else result)
             (bigint_rem (base * base) m) (drop_bit 1 exp) m
      else result)"
  by pat_completeness auto
termination
  by (relation "measure (\<lambda>(result, base, exp, m). nat exp)")
     (auto simp: drop_bit_eq_div)

declare modPow_loop.simps [simp del]

definition modPow :: "int \<Rightarrow> int \<Rightarrow> int \<Rightarrow> js_error + int" where
  "modPow base exp m =
     (if m = 0 then Inl RangeError else Inr (modPow_loop 1 (mod_norm base m) exp m))"

definition centeredMod :: "int \<Rightarrow> int \<Rightarrow> js_error + int" where
  "centeredMod v q =
     (if q = 0 then Inl RangeError
      else (let v1 = mod_norm v q
            in Inr (if v1 > bigint_div q 2 then v1 - q else v1)))"

subsection \<open>Negacyclic multiplication (both modules carry the same function)\<close>

definition mul_mod_body ::
  "int option \<Rightarrow> int option \<Rightarrow> nat \<Rightarrow> nat \<Rightarrow> nat \<Rightarrow> int \<Rightarrow> int list \<Rightarrow> js_error + int list" where
  \<comment> \<open>the body of the inner loop, for \<open>a[i]\<close> and \<open>b[j]\<close> as read\<close>
  "mul_mod_body ai bj i j n q result =
     (if bj = Some 0 then Inr result
      else (case (ai, bj) of
              (Some x, Some y) \<Rightarrow>
                (let idx = i + j; prod = x * y
                 in if q = 0 then Inl RangeError
                    else if idx < n
                    then Inr (result[idx := mod_norm (result ! idx + prod) q])
                    else Inr (result[idx - n := mod_norm (result ! (idx - n) - prod) q]))
            | _ \<Rightarrow> Inl TypeError))"

definition negacyclicMulModQ :: "int list \<Rightarrow> int list \<Rightarrow> nat \<Rightarrow> int \<Rightarrow> js_error + int list" where
  "negacyclicMulModQ a b n q =
     foldE (\<lambda>i result.
              if nth_opt a i = Some 0 then Inr result
              else foldE (\<lambda>j. mul_mod_body (nth_opt a i) (nth_opt b j) i j n q) [0..<n] result)
           [0..<n] (replicate n 0)"

definition mul_int_body ::
  "int option \<Rightarrow> int option \<Rightarrow> nat \<Rightarrow> nat \<Rightarrow> nat \<Rightarrow> int list \<Rightarrow> js_error + int list" where
  "mul_int_body ai bj i j n result =
     (if bj = Some 0 then Inr result
      else (case (ai, bj) of
              (Some x, Some y) \<Rightarrow>
                (let idx = i + j; prod = x * y
                 in if idx < n
                    then Inr (result[idx := result ! idx + prod])
                    else Inr (result[idx - n := result ! (idx - n) - prod]))
            | _ \<Rightarrow> Inl TypeError))"

definition negacyclicMulInt :: "int list \<Rightarrow> int list \<Rightarrow> nat \<Rightarrow> js_error + int list" where
  "negacyclicMulInt a b n =
     foldE (\<lambda>i result.
              if nth_opt a i = Some 0 then Inr result
              else foldE (\<lambda>j. mul_int_body (nth_opt a i) (nth_opt b j) i j n) [0..<n] result)
           [0..<n] (replicate n 0)"

subsection \<open>Rows of the negacyclic matrix, inner product\<close>

definition matrix_row_entry :: "int list \<Rightarrow> nat \<Rightarrow> nat \<Rightarrow> int \<Rightarrow> nat \<Rightarrow> js_error + int" where
  \<comment> \<open>\<open>row[j]\<close>; \<open>idx = k - j\<close> is non-negative exactly when \<open>j \<le> k\<close>\<close>
  "matrix_row_entry poly k n q j =
     (if j \<le> k
      then (case nth_opt poly (k - j) of
              None \<Rightarrow> Inl TypeError
            | Some v \<Rightarrow> if q = 0 then Inl RangeError else Inr (mod_norm v q))
      else (case nth_opt poly (k + n - j) of
              None \<Rightarrow> Inl TypeError
            | Some v \<Rightarrow> if q = 0 then Inl RangeError else Inr (mod_norm (- v) q)))"

definition negacyclicMatrixRowModQ :: "int list \<Rightarrow> nat \<Rightarrow> nat \<Rightarrow> int \<Rightarrow> js_error + int list" where
  "negacyclicMatrixRowModQ poly k n q = mapE (matrix_row_entry poly k n q) [0..<n]"

definition innerProductInt :: "int list \<Rightarrow> int list \<Rightarrow> js_error + int" where
  "innerProductInt row r =
     foldE (\<lambda>i sum. bindE (at r i) (\<lambda>ri. Inr (sum + row ! i * ri))) [0..<length row] 0"

section \<open>RLWE audit encryption (rlwe.ts)\<close>

record RlwePk =
  pk_a :: "int list"
  pk_b :: "int list"

record RlweEncryptResult =
  c0Sparse :: "int list"
  c1 :: "int list"
  rSigned :: "int list"
  e1Signed :: "int list"
  e2Signed :: "int list"
  msg :: "int list"

record QuotientResult =
  k0 :: "int list"
  k1 :: "int list"

definition encodeFieldToBytes :: "int \<Rightarrow> nat \<Rightarrow> int list" where
  "encodeFieldToBytes v numBytes = map (\<lambda>i. drop_bit (i * 8) v AND 255) [0..<numBytes]"

definition smallNoise :: "nat \<Rightarrow> int" where
  \<comment> \<open>the argument is the byte \<open>crypto.getRandomValues\<close> delivered\<close>
  "smallNoise byte = int (byte mod 7) - 3"

definition inner_product_mod_q :: "int list \<Rightarrow> int list \<Rightarrow> js_error + int" where
  \<comment> \<open>the loop \<open>ip = ((ip + row[j] * rModQ[j]) % RLWE_Q + RLWE_Q) % RLWE_Q\<close>\<close>
  "inner_product_mod_q row rModQ =
     foldE (\<lambda>j ip. bindE (at row j) (\<lambda>x. bindE (at rModQ j) (\<lambda>y.
              Inr (mod_norm (ip + x * y) RLWE_Q))))
           [0..<N] 0"

definition encrypt_c0_at :: "RlwePk \<Rightarrow> int list \<Rightarrow> int list \<Rightarrow> int list \<Rightarrow> nat \<Rightarrow> js_error + int" where
  "encrypt_c0_at pk rModQ e1ModQ m i =
     bindE (negacyclicMatrixRowModQ (pk_b pk) i N RLWE_Q) (\<lambda>row.
     bindE (inner_product_mod_q row rModQ) (\<lambda>ip.
     bindE (at e1ModQ i) (\<lambda>e. bindE (at m i) (\<lambda>mi.
       Inr (mod_norm (ip + e + DELTA * mi) RLWE_Q)))))"

definition encrypt_c1_at :: "RlwePk \<Rightarrow> int list \<Rightarrow> int list \<Rightarrow> nat \<Rightarrow> js_error + int" where
  "encrypt_c1_at pk rModQ e2ModQ i =
     bindE (negacyclicMatrixRowModQ (pk_a pk) i N RLWE_Q) (\<lambda>row.
     bindE (inner_product_mod_q row rModQ) (\<lambda>ip.
     bindE (at e2ModQ i) (\<lambda>e. Inr (mod_norm (ip + e) RLWE_Q))))"

definition rlweEncryptWith ::
  "RlwePk \<Rightarrow> int \<Rightarrow> int \<Rightarrow> int list \<Rightarrow> int list \<Rightarrow> int list \<Rightarrow> js_error + RlweEncryptResult" where
  \<comment> \<open>\<open>rlweEncrypt\<close> from the point where the key is loaded and the noise is sampled\<close>
  "rlweEncryptWith pk ownerX ownerY r e1 e2 =
     (let m = encodeFieldToBytes ownerX 32 @ encodeFieldToBytes ownerY 32;
          rModQ = map (\<lambda>v. mod_norm v RLWE_Q) r;
          e1ModQ = map (\<lambda>v. mod_norm v RLWE_Q) e1;
          e2ModQ = map (\<lambda>v. mod_norm v RLWE_Q) e2
      in bindE (mapE (encrypt_c0_at pk rModQ e1ModQ m) [0..<MSG_SLOTS]) (\<lambda>c0.
         bindE (mapE (encrypt_c1_at pk rModQ e2ModQ) [0..<N]) (\<lambda>c1'.
           Inr \<lparr>c0Sparse = c0, c1 = c1', rSigned = r, e1Signed = e1, e2Signed = e2,
                msg = m\<rparr>)))"

definition rlweEncrypt :: "RlwePk \<Rightarrow> (nat \<Rightarrow> nat) \<Rightarrow> int \<Rightarrow> int \<Rightarrow> js_error + RlweEncryptResult" where
  \<comment> \<open>\<open>pk\<close> is the cached public key, \<open>rnd k\<close> the byte of the \<open>k\<close>-th call of
      \<open>smallNoise\<close>\<close>
  "rlweEncrypt pk rnd ownerX ownerY =
     rlweEncryptWith pk ownerX ownerY
       (map (\<lambda>k. smallNoise (rnd k)) [0..<N])
       (map (\<lambda>k. smallNoise (rnd (N + k))) [0..<MSG_SLOTS])
       (map (\<lambda>k. smallNoise (rnd (N + MSG_SLOTS + k))) [0..<N])"

definition quotient_k0_at ::
  "RlwePk \<Rightarrow> int list \<Rightarrow> int list \<Rightarrow> int list \<Rightarrow> int list \<Rightarrow> nat \<Rightarrow> js_error + int" where
  "quotient_k0_at pk c0 r e1 m i =
     bindE (negacyclicMatrixRowModQ (pk_b pk) i N RLWE_Q) (\<lambda>row.
     bindE (innerProductInt row r) (\<lambda>ipInt.
     bindE (at e1 i) (\<lambda>e. bindE (at m i) (\<lambda>mi. bindE (at c0 i) (\<lambda>c0Val.
       Inr (bigint_div (ipInt + e + DELTA * mi - c0Val) RLWE_Q))))))"

definition quotient_k1_at ::
  "RlwePk \<Rightarrow> int list \<Rightarrow> int list \<Rightarrow> int list \<Rightarrow> nat \<Rightarrow> js_error + int" where
  "quotient_k1_at pk c1' r e2 i =
     bindE (negacyclicMatrixRowModQ (pk_a pk) i N RLWE_Q) (\<lambda>row.
     bindE (innerProductInt row r) (\<lambda>ipInt.
     bindE (at e2 i) (\<lambda>e. bindE (at c1' i) (\<lambda>c1Val.
       Inr (bigint_div (ipInt + e - c1Val) RLWE_Q)))))"

definition computeQuotients ::
  "RlwePk \<Rightarrow> int list \<Rightarrow> int list \<Rightarrow> int list \<Rightarrow> int list \<Rightarrow> int list \<Rightarrow> int list
     \<Rightarrow> js_error + QuotientResult" where
  "computeQuotients pk c0 c1' r e1 e2 m =
     bindE (mapE (quotient_k0_at pk c0 r e1 m) [0..<MSG_SLOTS]) (\<lambda>ks0.
     bindE (mapE (quotient_k1_at pk c1' r e2) [0..<N]) (\<lambda>ks1.
       Inr \<lparr>k0 = ks0, k1 = ks1\<rparr>))"

section \<open>Threshold decryption (Shamir reconstruction and RLWE decryption)\<close>

text \<open>
  A share file carries, per ring position, the point \<open>(x, y)\<close>; \<open>y\<close> is stored as a
  numeral string and read with \<open>BigInt\<close>. The model keeps the integer that \<open>BigInt\<close>
  reads; \<open>x\<close>, \<open>threshold\<close> and the other counters are integers.
\<close>

record ShareCoefficient =
  sc_x :: int
  sc_y :: int

record ShareFile =
  share_index :: int
  threshold :: int
  num_shares :: int
  coefficients :: "ShareCoefficient list"

definition slice0 :: "'a list \<Rightarrow> int \<Rightarrow> 'a list" where
  \<comment> \<open>\<open>xs.slice(0, t)\<close>; a negative \<open>t\<close> counts from the end\<close>
  "slice0 xs t = (if 0 \<le> t then take (nat t) xs else take (length xs - nat (- t)) xs)"

definition lagrange_factor :: "int list \<Rightarrow> nat \<Rightarrow> nat \<Rightarrow> int option \<Rightarrow> js_error + int option" where
  \<comment> \<open>the body of the inner loop of \<open>shamirReconstructField\<close>; \<open>num\<close> is
      \<open>undefined\<close> (\<open>None\<close>) when \<open>ys[i]\<close> was read out of range\<close>
  "lagrange_factor xs i j num =
     (if i \<noteq> j
      then (case (num, nth_opt xs j, nth_opt xs i) of
              (Some nm, Some xj, Some xi) \<Rightarrow>
                (let num1 = bigint_rem (nm * (bigint_rem (- xj) BN254_P + BN254_P)) BN254_P
                 in bindE (modPow (mod_norm (xi - xj) BN254_P) (BN254_P - 2) BN254_P) (\<lambda>inv.
                      Inr (Some (bigint_rem (num1 * inv) BN254_P))))
            | _ \<Rightarrow> Inl TypeError)
      else Inr num)"

definition shamirReconstructField :: "(int \<times> int) list \<Rightarrow> int \<Rightarrow> js_error + int" where
  "shamirReconstructField shares t =
     (let xs = map fst (slice0 shares t);
          ys = map snd (slice0 shares t)
      in foldE (\<lambda>i secret.
                  bindE (foldE (lagrange_factor xs i) [0..<nat t] (nth_opt ys i)) (\<lambda>num.
                    case num of
                      None \<Rightarrow> Inl TypeError
                    | Some nm \<Rightarrow> Inr (bigint_rem (secret + nm) BN254_P)))
               [0..<nat t] 0)"

definition reconstruct_coeff :: "ShareFile \<Rightarrow> ShareFile \<Rightarrow> nat \<Rightarrow> js_error + int" where
  "reconstruct_coeff share1Data share2Data coeffIdx =
     bindE (at (coefficients share1Data) coeffIdx) (\<lambda>p1.
     bindE (at (coefficients share2Data) coeffIdx) (\<lambda>p2.
     bindE (shamirReconstructField [(sc_x p1, sc_y p1), (sc_x p2, sc_y p2)]
              (threshold share1Data)) (\<lambda>val.
     bindE (centeredMod val BN254_P) (\<lambda>signed.
       Inr (mod_norm signed RLWE_Q)))))"

definition reconstructSk :: "ShareFile \<Rightarrow> ShareFile \<Rightarrow> js_error + int list" where
  "reconstructSk share1Data share2Data =
     mapE (reconstruct_coeff share1Data share2Data) [0..<N]"

record Owner =
  ownerX :: int
  ownerY :: int

definition round_slot :: "int \<Rightarrow> int" where
  \<comment> \<open>\<open>round(noisy / Delta) mod t\<close> as the source computes it, then normalised into a byte\<close>
  "round_slot noisyCentered =
     (let val = bigint_rem
                  (bigint_div
                     (bigint_div (noisyCentered * 10) DELTA
                        + (if noisyCentered \<ge> 0 then 5 else - 5)) 10)
                  PLAINTEXT_MOD
      in mod_norm val 256)"

definition decrypt_slot :: "int list \<Rightarrow> int list \<Rightarrow> nat \<Rightarrow> js_error + int" where
  "decrypt_slot c0 skC1 i =
     bindE (at c0 i) (\<lambda>c0i. bindE (at skC1 i) (\<lambda>si.
     bindE (centeredMod (bigint_rem (c0i + si) RLWE_Q) RLWE_Q) (\<lambda>noisyCentered.
       Inr (round_slot noisyCentered))))"

definition assemble :: "int list \<Rightarrow> nat \<Rightarrow> int" where
  \<comment> \<open>the loop \<open>owner += BigInt(msgRecovered[off + i] & 0xff) << BigInt(i * 8)\<close>\<close>
  "assemble msgRecovered off =
     foldl (\<lambda>owner i. owner + push_bit (i * 8) (msgRecovered ! (off + i) AND 255)) 0 [0..<32]"

definition rlweDecrypt :: "int list \<Rightarrow> int list \<Rightarrow> int list \<Rightarrow> js_error + Owner" where
  "rlweDecrypt c0 c1' skModQ =
     bindE (negacyclicMulModQ skModQ c1' N RLWE_Q) (\<lambda>skC1.
     bindE (mapE (decrypt_slot c0 skC1) [0..<MSG_SLOTS]) (\<lambda>msgRecovered.
       Inr \<lparr>ownerX = assemble msgRecovered 0, ownerY = assemble msgRecovered 32\<rparr>))"

section \<open>Identity keypair and Merkle accumulator\<close>

definition BABYJUBJUB_N :: int where
  \<comment> \<open>the order \<open>n\<close> handed to the curve library\<close>
  "BABYJUBJUB_N = 21888242871839275222246405745257275088696311157297823662689037894645226208583"

definition MAX_128_BIT :: int where
  "MAX_128_BIT = push_bit 128 1 - 1"

record 'p IdentityKeypair =
  secretKey :: int
  publicKey :: 'p

definition generateIdentityKeypair :: "(int \<Rightarrow> 'e + 'p) \<Rightarrow> int \<Rightarrow> 'e + 'p IdentityKeypair" where
  \<comment> \<open>\<open>multiply\<close> stands for \<open>BabyJubJubCurve.BASE.multiply\<close> of the curve library,
      which returns the point or throws\<close>
  "generateIdentityKeypair multiply sKey =
     (let sk = bigint_rem sKey (MAX_128_BIT + 1)
      in case multiply sk of
           Inl e \<Rightarrow> Inl e
         | Inr pk \<Rightarrow> Inr \<lparr>secretKey = sk, publicKey = pk\<rparr>)"

definition TREE_DEPTH :: nat where "TREE_DEPTH = 16"

record ShieldedPoolMerkleTree =
  leaves :: "int list"
  defaultHashes :: "int list"

definition nth_or :: "'a list \<Rightarrow> nat \<Rightarrow> 'a \<Rightarrow> 'a" where
  \<comment> \<open>\<open>xs[i] ?? d\<close>\<close>
  "nth_or xs i d = (case nth_opt xs i of None \<Rightarrow> d | Some v \<Rightarrow> v)"

text \<open>
  \<open>poseidonHash2\<close> is the external hash; the tree functions take it as the parameter
  \<open>H\<close>.
\<close>

definition new_tree :: "(int \<Rightarrow> int \<Rightarrow> int) \<Rightarrow> ShieldedPoolMerkleTree" where
  \<comment> \<open>the constructor: \<open>defaultHashes[0] = 0\<close>, then one hash per level\<close>
  "new_tree H =
     \<lparr>leaves = [],
      defaultHashes =
        foldl (\<lambda>dh i. dh[i := H (dh ! (i - 1)) (dh ! (i - 1))])
          (replicate (TREE_DEPTH + 1) 0) [1..<TREE_DEPTH + 1]\<rparr>"

definition insert_leaf :: "ShieldedPoolMerkleTree \<Rightarrow> int \<Rightarrow> ShieldedPoolMerkleTree \<times> nat" where
  "insert_leaf t commitment = (t\<lparr>leaves := leaves t @ [commitment]\<rparr>, length (leaves t))"

definition next_level :: "(int \<Rightarrow> int \<Rightarrow> int) \<Rightarrow> int list \<Rightarrow> nat \<Rightarrow> int list \<Rightarrow> int list" where
  \<comment> \<open>the inner loop \<open>for (j = 0; j < 2^(TREE_DEPTH - i); j += 2)\<close>, one push per \<open>j\<close>\<close>
  "next_level H dh i currentLevel =
     map (\<lambda>p. H (nth_or currentLevel (2 * p) (dh ! i)) (nth_or currentLevel (2 * p + 1) (dh ! i)))
       [0..<(2 ^ (TREE_DEPTH - i) + 1) div 2]"

definition getRoot :: "(int \<Rightarrow> int \<Rightarrow> int) \<Rightarrow> ShieldedPoolMerkleTree \<Rightarrow> int" where
  "getRoot H t =
     foldl (\<lambda>currentLevel i. next_level H (defaultHashes t) i currentLevel)
       (leaves t) [0..<TREE_DEPTH] ! 0"

fun calculateRootAtLevel :: "(int \<Rightarrow> int \<Rightarrow> int) \<Rightarrow> int list \<Rightarrow> nat \<Rightarrow> nat \<Rightarrow> int" where
  "calculateRootAtLevel H ls 0 index = nth_or ls index 0"
| "calculateRootAtLevel H ls (Suc level) index =
     H (calculateRootAtLevel H ls level (index * 2))
       (calculateRootAtLevel H ls level (index * 2 + 1))"

definition getRootOptimized :: "(int \<Rightarrow> int \<Rightarrow> int) \<Rightarrow> ShieldedPoolMerkleTree \<Rightarrow> int" where
  "getRootOptimized H t = calculateRootAtLevel H (leaves t) TREE_DEPTH 0"

definition proof_step ::
  "(int \<Rightarrow> int \<Rightarrow> int) \<Rightarrow> int list \<Rightarrow> int list \<times> nat \<times> int list \<Rightarrow> nat
     \<Rightarrow> int list \<times> nat \<times> int list" where
  "proof_step H dh st i =
     (case st of (prf, currentIdx, currentLevel) \<Rightarrow>
        (let siblingIdx = (if currentIdx mod 2 = 1 then currentIdx - 1 else currentIdx + 1);
             sibling = nth_or currentLevel siblingIdx (dh ! i)
         in (prf @ [sibling], currentIdx div 2, next_level H dh i currentLevel)))"

definition getProof :: "(int \<Rightarrow> int \<Rightarrow> int) \<Rightarrow> ShieldedPoolMerkleTree \<Rightarrow> nat \<Rightarrow> int list" where
  "getProof H t index =
     fst (foldl (proof_step H (defaultHashes t)) ([], index, leaves t) [0..<TREE_DEPTH])"

section \<open>Truncating arithmetic against HOL's floor arithmetic\<close>

lemma bigint_rem_nonneg: "0 \<le> a \<Longrightarrow> 0 < b \<Longrightarrow> bigint_rem a b = a mod b"
  by (cases "a = 0") (simp_all add: bigint_rem_def)

lemma bigint_rem_neg: "a < 0 \<Longrightarrow> 0 < b \<Longrightarrow> bigint_rem a b = - ((- a) mod b)"
  by (simp add: bigint_rem_def)

lemma bigint_rem_range: "0 < b \<Longrightarrow> - b < bigint_rem a b \<and> bigint_rem a b < b"
proof (cases "0 \<le> a")
  case True
  assume b: "0 < b"
  have "0 \<le> a mod b" "a mod b < b" using b by simp_all
  then show ?thesis unfolding bigint_rem_nonneg[OF True b] using b by linarith
next
  case False
  assume b: "0 < b"
  have "0 \<le> (- a) mod b" "(- a) mod b < b" using b by simp_all
  moreover have "bigint_rem a b = - ((- a) mod b)"
    using False b by (simp add: bigint_rem_neg)
  ultimately show ?thesis using b by linarith
qed

lemma bigint_rem_cong: "0 < b \<Longrightarrow> bigint_rem a b mod b = a mod b"
proof (cases "0 \<le> a")
  case True
  assume "0 < b"
  then show ?thesis using True by (simp add: bigint_rem_nonneg)
next
  case False
  assume b: "0 < b"
  then show ?thesis using False by (simp add: bigint_rem_neg mod_minus_eq)
qed

lemma mod_norm_eq:
  assumes "0 < q"
  shows "mod_norm v q = v mod q"
proof -
  have "0 \<le> bigint_rem v q + q"
    using bigint_rem_range[OF assms, of v] by simp
  then have "bigint_rem (bigint_rem v q + q) q = (bigint_rem v q + q) mod q"
    using assms by (simp add: bigint_rem_nonneg)
  also have "\<dots> = bigint_rem v q mod q" by simp
  also have "\<dots> = v mod q" using assms by (rule bigint_rem_cong)
  finally show ?thesis by (simp add: mod_norm_def)
qed

lemma bigint_div_nonneg: "0 \<le> a \<Longrightarrow> 0 < b \<Longrightarrow> bigint_div a b = a div b"
  by (cases "a = 0") (simp_all add: bigint_div_def)

lemma bigint_div_neg: "a < 0 \<Longrightarrow> 0 < b \<Longrightarrow> bigint_div a b = - ((- a) div b)"
  by (simp add: bigint_div_def)

lemma bigint_div_exact: "b \<noteq> 0 \<Longrightarrow> bigint_div (k * b) b = k"
proof -
  assume b: "b \<noteq> 0"
  have "\<bar>k * b\<bar> div \<bar>b\<bar> = \<bar>k\<bar>" using b by (simp add: abs_mult)
  then have "bigint_div (k * b) b = sgn k * (sgn b * sgn b) * \<bar>k\<bar>"
    by (simp add: bigint_div_def sgn_mult)
  also have "sgn b * sgn b = 1" using b by (simp add: sgn_if)
  finally show ?thesis by (simp add: sgn_mult_abs)
qed

lemma mod_shift_by_modulus:
  fixes m q v :: int
  shows "((if c then m - q else m) - v) mod q = (m - v) mod q"
proof (cases c)
  case True
  have "(m - q - v) = (m - v) - q" by simp
  then show ?thesis using True by (simp only: if_True minus_mod_self2)
next
  case False
  then show ?thesis by simp
qed

lemma DELTA_eq: "DELTA = 655360"
  by (simp add: DELTA_def RLWE_Q_def PLAINTEXT_MOD_def bigint_div_def)

section \<open>Centered reduction\<close>

lemma centeredMod_value:
  assumes "0 < q"
  shows "centeredMod v q = Inr (if v mod q > q div 2 then v mod q - q else v mod q)"
  using assms by (simp add: centeredMod_def mod_norm_eq bigint_div_nonneg)

text \<open>
  C8: for every integer \<open>v\<close> and every positive modulus \<open>q\<close>, \<open>centeredMod v q\<close>
  returns a value congruent to \<open>v\<close> modulo \<open>q\<close> that lies in the half-open interval
  \<open>(-q/2, q/2]\<close> (stated on integers as \<open>-q < 2r \<le> q\<close>); for odd \<open>q\<close> this is the
  interval \<open>[-(q-1)/2, (q-1)/2]\<close>.
\<close>

theorem centeredMod_congruent_centered:
  assumes "0 < q"
  shows "\<exists>r. centeredMod v q = Inr r \<and> (r - v) mod q = 0 \<and> - q < 2 * r \<and> 2 * r \<le> q
           \<and> (odd q \<longrightarrow> - ((q - 1) div 2) \<le> r \<and> r \<le> (q - 1) div 2)"
proof -
  define m where "m = v mod q"
  define r where "r = (if m > q div 2 then m - q else m)"
  have m: "0 \<le> m" "m < q" using assms by (simp_all add: m_def)
  have val: "centeredMod v q = Inr r"
    using assms by (simp add: centeredMod_value r_def m_def)
  have "(r - v) mod q = (m - v) mod q"
    unfolding r_def by (rule mod_shift_by_modulus)
  also have "\<dots> = 0"
    by (simp add: m_def mod_diff_left_eq)
  finally have cong: "(r - v) mod q = 0" .
  have lo: "- q < 2 * r" using m assms by (auto simp: r_def)
  have hi: "2 * r \<le> q" using m assms by (auto simp: r_def)
  have odd: "odd q \<longrightarrow> - ((q - 1) div 2) \<le> r \<and> r \<le> (q - 1) div 2"
    using lo hi by presburger
  from val cong lo hi odd show ?thesis
    by (intro exI[of _ r] conjI) simp_all
qed

theorem centeredMod_congruent_centered_witness:
  "(0::int) < 167772161 \<and> centeredMod 200000000 167772161 = Inr 32227839
     \<and> (32227839 - 200000000) mod (167772161::int) = 0"
  using centeredMod_congruent_centered[of 167772161 200000000]
  by (simp add: centeredMod_value)

section \<open>Reasoning about loops that may throw\<close>

lemma bindE_Inr [simp]: "bindE (Inr x) f = f x"
  by (simp add: bindE_def)

lemma bindE_Inl [simp]: "bindE (Inl e) f = Inl e"
  by (simp add: bindE_def)

lemma bindE_eq_Inr: "bindE m f = Inr y \<longleftrightarrow> (\<exists>x. m = Inr x \<and> f x = Inr y)"
  by (cases m) simp_all

lemma at_in_range: "i < length xs \<Longrightarrow> at xs i = Inr (xs ! i)"
  by (simp add: at_def nth_opt_def)

lemma at_eq_Inr: "at xs i = Inr v \<longleftrightarrow> i < length xs \<and> v = xs ! i"
  by (auto simp: at_def nth_opt_def)

lemma foldE_append:
  "foldE f (xs @ ys) s = (case foldE f xs s of Inl e \<Rightarrow> Inl e | Inr s' \<Rightarrow> foldE f ys s')"
  by (induction xs arbitrary: s) (auto split: sum.splits)

lemma foldE_upt_inv:
  assumes "P 0 s"
    and "\<And>i s. i < n \<Longrightarrow> P i s \<Longrightarrow> \<exists>s'. f i s = Inr s' \<and> P (Suc i) s'"
  shows "\<exists>s'. foldE f [0..<n] s = Inr s' \<and> P n s'"
  using assms(2)
proof (induction n)
  case 0
  then show ?case using assms(1) by simp
next
  case (Suc n)
  then obtain s1 where s1: "foldE f [0..<n] s = Inr s1" "P n s1"
    by (metis less_Suc_eq)
  obtain s2 where "f n s1 = Inr s2" "P (Suc n) s2"
    using Suc.prems[of n s1] s1 by auto
  then show ?case using s1 by (simp add: foldE_append)
qed

lemma foldE_preserves:
  assumes "foldE f xs s = Inr s'" and "I s"
    and "\<And>x s s'. x \<in> set xs \<Longrightarrow> I s \<Longrightarrow> f x s = Inr s' \<Longrightarrow> I s'"
  shows "I s'"
  using assms
proof (induction xs arbitrary: s)
  case Nil
  then show ?case by simp
next
  case (Cons x xs)
  from Cons.prems(1) obtain s1 where s1: "f x s = Inr s1" "foldE f xs s1 = Inr s'"
    by (auto split: sum.splits)
  have "I s1" using Cons.prems(3)[of x s s1] Cons.prems(2) s1(1) by simp
  then show ?case
  proof (rule Cons.IH[OF s1(2)])
    fix y t t'
    assume "y \<in> set xs" "I t" "f y t = Inr t'"
    then show "I t'" using Cons.prems(3)[of y t t'] by simp
  qed
qed

lemma mapE_all_Inr:
  assumes "\<And>x. x \<in> set xs \<Longrightarrow> f x = Inr (g x)"
  shows "mapE f xs = Inr (map g xs)"
  using assms by (induction xs) simp_all

lemma mapE_eq_Inr:
  assumes "mapE f xs = Inr ys"
  shows "length ys = length xs \<and> (\<forall>i<length xs. f (xs ! i) = Inr (ys ! i))"
  using assms
proof (induction xs arbitrary: ys)
  case Nil
  then show ?case by simp
next
  case (Cons x xs)
  from Cons.prems obtain y ys' where y: "f x = Inr y" "mapE f xs = Inr ys'" "ys = y # ys'"
    by (auto split: sum.splits)
  from Cons.IH[OF y(2)] y(1,3) show ?case
    by (auto simp: nth_Cons split: nat.splits)
qed

section \<open>The negacyclic convolution as a sum\<close>

text \<open>
  \<open>ncoef p n k j\<close> is entry \<open>j\<close> of row \<open>k\<close> of the negacyclic matrix of \<open>p\<close>, before
  reduction; \<open>nconv a b n k\<close> is coefficient \<open>k\<close> of the product of \<open>a\<close> and \<open>b\<close> in
  \<open>Z[X]/(X^n + 1)\<close>. The loops of \<open>negacyclicMulModQ\<close> add one \<open>pair_term\<close> per pair
  \<open>(i, j)\<close>.
\<close>

definition ncoef :: "int list \<Rightarrow> nat \<Rightarrow> nat \<Rightarrow> nat \<Rightarrow> int" where
  "ncoef p n k j = (if j \<le> k then p ! (k - j) else - (p ! (k + n - j)))"

definition nconv :: "int list \<Rightarrow> int list \<Rightarrow> nat \<Rightarrow> nat \<Rightarrow> int" where
  "nconv a b n k = (\<Sum>j<n. ncoef a n k j * b ! j)"

definition pair_term :: "int list \<Rightarrow> int list \<Rightarrow> nat \<Rightarrow> nat \<Rightarrow> nat \<Rightarrow> nat \<Rightarrow> int" where
  "pair_term a b n i j k =
     (if i + j = k then a ! i * b ! j
      else if i + j = k + n then - (a ! i * b ! j) else 0)"

definition holds_sums :: "nat \<Rightarrow> int \<Rightarrow> (nat \<Rightarrow> int) \<Rightarrow> int list \<Rightarrow> bool" where
  "holds_sums n q S res \<longleftrightarrow> length res = n \<and> (\<forall>k<n. res ! k = S k mod q)"

lemma mul_mod_body_step:
  assumes "i < n" "j < n" "i < length a" "j < length b" "0 < q" "holds_sums n q S res"
  shows "\<exists>res'. mul_mod_body (nth_opt a i) (nth_opt b j) i j n q res = Inr res'
           \<and> holds_sums n q (\<lambda>k. S k + pair_term a b n i j k) res'"
proof (cases "b ! j = 0")
  case True
  then have "mul_mod_body (nth_opt a i) (nth_opt b j) i j n q res = Inr res"
    using assms by (simp add: mul_mod_body_def nth_opt_def)
  moreover have "pair_term a b n i j k = 0" for k
    using True by (simp add: pair_term_def)
  ultimately show ?thesis using assms(6) by simp
next
  case False
  note nz = False
  have len: "length res = n" and val: "\<And>k. k < n \<Longrightarrow> res ! k = S k mod q"
    using assms(6) by (simp_all add: holds_sums_def)
  show ?thesis
  proof (cases "i + j < n")
    case True
    let ?res' = "res[i + j := mod_norm (res ! (i + j) + a ! i * b ! j) q]"
    have run: "mul_mod_body (nth_opt a i) (nth_opt b j) i j n q res = Inr ?res'"
      using assms nz True by (simp add: mul_mod_body_def nth_opt_def Let_def)
    have "?res' ! k = (S k + pair_term a b n i j k) mod q" if k: "k < n" for k
    proof (cases "k = i + j")
      case True
      then have "?res' ! k = (S k mod q + a ! i * b ! j) mod q"
        using len k val[OF k] assms(5) by (simp add: mod_norm_eq)
      also have "\<dots> = (S k + a ! i * b ! j) mod q" by (simp add: mod_add_left_eq)
      finally show ?thesis using True by (simp add: pair_term_def)
    next
      case False
      then have "pair_term a b n i j k = 0"
        using \<open>i + j < n\<close> by (auto simp: pair_term_def)
      then show ?thesis using False val[OF k] by simp
    qed
    then have "holds_sums n q (\<lambda>k. S k + pair_term a b n i j k) ?res'"
      using len by (simp add: holds_sums_def)
    then show ?thesis using run by blast
  next
    case False
    let ?res' = "res[i + j - n := mod_norm (res ! (i + j - n) - a ! i * b ! j) q]"
    have run: "mul_mod_body (nth_opt a i) (nth_opt b j) i j n q res = Inr ?res'"
      using assms nz False by (simp add: mul_mod_body_def nth_opt_def Let_def)
    have "?res' ! k = (S k + pair_term a b n i j k) mod q" if k: "k < n" for k
    proof (cases "k = i + j - n")
      case True
      then have kn: "i + j = k + n" using False by simp
      have "?res' ! k = (S k mod q - a ! i * b ! j) mod q"
        using True len k val[OF k] assms(5) by (simp add: mod_norm_eq)
      also have "\<dots> = (S k - a ! i * b ! j) mod q" by (simp add: mod_diff_left_eq)
      finally show ?thesis using kn k by (simp add: pair_term_def)
    next
      case F2: False
      then have "pair_term a b n i j k = 0"
        using False k by (auto simp: pair_term_def)
      then show ?thesis using F2 val[OF k] by simp
    qed
    then have "holds_sums n q (\<lambda>k. S k + pair_term a b n i j k) ?res'"
      using len by (simp add: holds_sums_def)
    then show ?thesis using run by blast
  qed
qed

lemma mul_mod_inner_loop:
  assumes "i < n" "i < length a" "n \<le> length b" "0 < q" "holds_sums n q S res"
  shows "\<exists>res'. foldE (\<lambda>j. mul_mod_body (nth_opt a i) (nth_opt b j) i j n q) [0..<n] res = Inr res'
           \<and> holds_sums n q (\<lambda>k. S k + (\<Sum>j<n. pair_term a b n i j k)) res'"
proof (rule foldE_upt_inv[where P = "\<lambda>m r. holds_sums n q (\<lambda>k. S k + (\<Sum>j<m. pair_term a b n i j k)) r"])
  show "holds_sums n q (\<lambda>k. S k + (\<Sum>j<0. pair_term a b n i j k)) res"
    using assms(5) by simp
next
  fix j r
  assume j: "j < n" and r: "holds_sums n q (\<lambda>k. S k + (\<Sum>j<j. pair_term a b n i j k)) r"
  have "j < length b" using j assms(3) by simp
  from mul_mod_body_step[OF assms(1) j assms(2) this assms(4) r]
  show "\<exists>s'. mul_mod_body (nth_opt a i) (nth_opt b j) i j n q r = Inr s'
          \<and> holds_sums n q (\<lambda>k. S k + (\<Sum>j<Suc j. pair_term a b n i j k)) s'"
    by (simp add: add.assoc)
qed

lemma negacyclicMulModQ_pairs:
  assumes "n \<le> length a" "n \<le> length b" "0 < q"
  shows "\<exists>res. negacyclicMulModQ a b n q = Inr res
           \<and> holds_sums n q (\<lambda>k. \<Sum>i<n. \<Sum>j<n. pair_term a b n i j k) res"
  unfolding negacyclicMulModQ_def
proof (rule foldE_upt_inv[where P = "\<lambda>m r. holds_sums n q (\<lambda>k. \<Sum>i<m. \<Sum>j<n. pair_term a b n i j k) r"])
  show "holds_sums n q (\<lambda>k. \<Sum>i<0. \<Sum>j<n. pair_term a b n i j k) (replicate n 0)"
    by (simp add: holds_sums_def)
next
  fix i r
  assume i: "i < n" and r: "holds_sums n q (\<lambda>k. \<Sum>i<i. \<Sum>j<n. pair_term a b n i j k) r"
  have ia: "i < length a" using i assms(1) by simp
  show "\<exists>s'. (if nth_opt a i = Some 0 then Inr r
              else foldE (\<lambda>j. mul_mod_body (nth_opt a i) (nth_opt b j) i j n q) [0..<n] r) = Inr s'
          \<and> holds_sums n q (\<lambda>k. \<Sum>i<Suc i. \<Sum>j<n. pair_term a b n i j k) s'"
  proof (cases "a ! i = 0")
    case True
    then have "pair_term a b n i j k = 0" for j k
      by (simp add: pair_term_def)
    then have "(\<Sum>j<n. pair_term a b n i j k) = 0" for k
      by simp
    then show ?thesis using True ia r by (simp add: nth_opt_def)
  next
    case False
    from mul_mod_inner_loop[OF i ia assms(2,3) r] False ia
    show ?thesis by (simp add: nth_opt_def)
  qed
qed

lemma pair_term_column:
  assumes "j < n" "k < n"
  shows "(\<Sum>i<n. pair_term a b n i j k) = ncoef a n k j * b ! j"
proof (cases "j \<le> k")
  case True
  have "pair_term a b n i j k = (if i = k - j then a ! (k - j) * b ! j else 0)" if "i < n" for i
    using True that assms by (auto simp: pair_term_def)
  then have "(\<Sum>i<n. pair_term a b n i j k) = (\<Sum>i<n. if i = k - j then a ! (k - j) * b ! j else 0)"
    by (intro sum.cong) simp_all
  also have "\<dots> = a ! (k - j) * b ! j"
  proof -
    have "k - j < n" using assms by simp
    then show ?thesis by (simp add: sum.delta)
  qed
  finally show ?thesis using True by (simp add: ncoef_def)
next
  case False
  have "pair_term a b n i j k = (if i = k + n - j then - (a ! (k + n - j) * b ! j) else 0)"
    if "i < n" for i
    using False that assms by (auto simp: pair_term_def)
  then have "(\<Sum>i<n. pair_term a b n i j k)
             = (\<Sum>i<n. if i = k + n - j then - (a ! (k + n - j) * b ! j) else 0)"
    by (intro sum.cong) simp_all
  also have "\<dots> = - (a ! (k + n - j) * b ! j)"
  proof -
    have "k + n - j < n" using assms False by simp
    then show ?thesis by (simp add: sum.delta)
  qed
  finally show ?thesis using False by (simp add: ncoef_def)
qed

lemma pair_term_total:
  assumes "k < n"
  shows "(\<Sum>i<n. \<Sum>j<n. pair_term a b n i j k) = nconv a b n k"
proof -
  have "(\<Sum>i<n. \<Sum>j<n. pair_term a b n i j k) = (\<Sum>j<n. \<Sum>i<n. pair_term a b n i j k)"
    by (rule sum.swap)
  also have "\<dots> = (\<Sum>j<n. ncoef a n k j * b ! j)"
    by (intro sum.cong refl pair_term_column) (use assms in simp_all)
  finally show ?thesis by (simp add: nconv_def)
qed

lemma negacyclicMulModQ_value:
  assumes "n \<le> length a" "n \<le> length b" "0 < q"
  shows "negacyclicMulModQ a b n q = Inr (map (\<lambda>k. nconv a b n k mod q) [0..<n])"
proof -
  from negacyclicMulModQ_pairs[OF assms] obtain res where
    res: "negacyclicMulModQ a b n q = Inr res"
    and hs: "holds_sums n q (\<lambda>k. \<Sum>i<n. \<Sum>j<n. pair_term a b n i j k) res"
    by blast
  have "res = map (\<lambda>k. nconv a b n k mod q) [0..<n]"
  proof (rule nth_equalityI)
    show "length res = length (map (\<lambda>k. nconv a b n k mod q) [0..<n])"
      using hs by (simp add: holds_sums_def)
  next
    fix k assume "k < length res"
    then have k: "k < n" using hs by (simp add: holds_sums_def)
    then show "res ! k = map (\<lambda>k. nconv a b n k mod q) [0..<n] ! k"
      using hs by (simp add: holds_sums_def pair_term_total)
  qed
  then show ?thesis using res by simp
qed

section \<open>Rows of the negacyclic matrix against the convolution\<close>

lemma RLWE_Q_pos: "0 < RLWE_Q"
  by (simp add: RLWE_Q_def)

lemma mod_norm_range: "0 < q \<Longrightarrow> 0 \<le> mod_norm v q \<and> mod_norm v q < q"
  by (simp add: mod_norm_eq)

lemma matrix_row_entry_value:
  assumes "k < n" "j < n" "n \<le> length poly" "0 < q"
  shows "matrix_row_entry poly k n q j = Inr (ncoef poly n k j mod q)"
proof (cases "j \<le> k")
  case True
  then have "k - j < length poly" using assms by simp
  then show ?thesis using True assms(4)
    by (simp add: matrix_row_entry_def nth_opt_def ncoef_def mod_norm_eq)
next
  case False
  then have "k + n - j < length poly" using assms by simp
  then show ?thesis using False assms(4)
    by (simp add: matrix_row_entry_def nth_opt_def ncoef_def mod_norm_eq)
qed

lemma negacyclicMatrixRowModQ_value:
  assumes "k < n" "n \<le> length poly" "0 < q"
  shows "negacyclicMatrixRowModQ poly k n q = Inr (map (\<lambda>j. ncoef poly n k j mod q) [0..<n])"
  unfolding negacyclicMatrixRowModQ_def
  by (rule mapE_all_Inr) (use assms in \<open>simp add: matrix_row_entry_value\<close>)

lemma innerProductInt_value:
  assumes "length row \<le> length r"
  shows "innerProductInt row r = Inr (\<Sum>i<length row. row ! i * r ! i)"
proof -
  have "\<exists>s'. innerProductInt row r = Inr s' \<and> s' = (\<Sum>i<length row. row ! i * r ! i)"
    unfolding innerProductInt_def
  proof (rule foldE_upt_inv[where P = "\<lambda>m s. s = (\<Sum>i<m. row ! i * r ! i)"])
    show "(0::int) = (\<Sum>i<0. row ! i * r ! i)" by simp
  next
    fix i s
    assume "i < length row" "s = (\<Sum>i<i. row ! i * r ! i)"
    then show "\<exists>s'. bindE (at r i) (\<lambda>ri. Inr (s + row ! i * ri)) = Inr s'
                 \<and> s' = (\<Sum>i<Suc i. row ! i * r ! i)"
      using assms by (simp add: at_in_range)
  qed
  then show ?thesis by simp
qed

lemma inner_product_mod_q_value:
  assumes "N \<le> length row" "N \<le> length rModQ"
  shows "inner_product_mod_q row rModQ = Inr ((\<Sum>j<N. row ! j * rModQ ! j) mod RLWE_Q)"
proof -
  have "\<exists>s'. inner_product_mod_q row rModQ = Inr s'
          \<and> s' = (\<Sum>j<N. row ! j * rModQ ! j) mod RLWE_Q"
    unfolding inner_product_mod_q_def
  proof (rule foldE_upt_inv[where P = "\<lambda>m s. s = (\<Sum>j<m. row ! j * rModQ ! j) mod RLWE_Q"])
    show "(0::int) = (\<Sum>j<0. row ! j * rModQ ! j) mod RLWE_Q" by simp
  next
    fix j s
    assume j: "j < N" and s: "s = (\<Sum>j<j. row ! j * rModQ ! j) mod RLWE_Q"
    have "mod_norm (s + row ! j * rModQ ! j) RLWE_Q
            = (\<Sum>j<Suc j. row ! j * rModQ ! j) mod RLWE_Q"
      using s by (simp add: mod_norm_eq RLWE_Q_pos mod_add_left_eq)
    then show "\<exists>s'. bindE (at row j) (\<lambda>x. bindE (at rModQ j) (\<lambda>y.
                     Inr (mod_norm (s + x * y) RLWE_Q))) = Inr s'
                 \<and> s' = (\<Sum>j<Suc j. row ! j * rModQ ! j) mod RLWE_Q"
      using j assms by (simp add: at_in_range)
  qed
  then show ?thesis by simp
qed

lemma sum_mod_cong:
  fixes f g :: "nat \<Rightarrow> int"
  assumes "\<And>i. i \<in> A \<Longrightarrow> f i mod q = g i mod q"
  shows "sum f A mod q = sum g A mod q"
proof -
  have "sum f A mod q = (\<Sum>i\<in>A. f i mod q) mod q" by (simp add: mod_sum_eq)
  also have "\<dots> = (\<Sum>i\<in>A. g i mod q) mod q" using assms by simp
  also have "\<dots> = sum g A mod q" by (simp add: mod_sum_eq)
  finally show ?thesis .
qed

lemma row_inner_product_mod:
  "(\<Sum>j<n. (ncoef poly n k j mod q) * (x ! j mod q)) mod q = nconv poly x n k mod q"
  unfolding nconv_def
  by (rule sum_mod_cong) (simp add: mod_mult_eq)

lemma row_inner_product_mod':
  "(\<Sum>j<n. (ncoef poly n k j mod q) * x ! j) mod q = nconv poly x n k mod q"
  unfolding nconv_def
  by (rule sum_mod_cong) (simp add: mod_mult_left_eq)

text \<open>
  C3: for every polynomial \<open>poly\<close> of length \<open>N = 1024\<close>, every row index \<open>i < N\<close>
  and every ring element \<open>x\<close> of length \<open>N\<close>, the row \<open>negacyclicMatrixRowModQ poly i N Q\<close>
  exists, its integer inner product with \<open>x\<close> exists, the product
  \<open>negacyclicMulModQ poly x N Q\<close> exists, and the inner product reduced modulo \<open>Q\<close> is
  coefficient \<open>i\<close> of the product.
\<close>

theorem matrix_row_inner_product_is_mul_coefficient:
  assumes "length poly = N" "length x = N" "i < N"
  shows "\<exists>row ip res. negacyclicMatrixRowModQ poly i N RLWE_Q = Inr row
           \<and> innerProductInt row x = Inr ip
           \<and> negacyclicMulModQ poly x N RLWE_Q = Inr res
           \<and> ip mod RLWE_Q = res ! i"
proof -
  let ?row = "map (\<lambda>j. ncoef poly N i j mod RLWE_Q) [0..<N]"
  let ?ip = "\<Sum>j<N. ?row ! j * x ! j"
  let ?res = "map (\<lambda>k. nconv poly x N k mod RLWE_Q) [0..<N]"
  have row: "negacyclicMatrixRowModQ poly i N RLWE_Q = Inr ?row"
    using assms by (simp add: negacyclicMatrixRowModQ_value RLWE_Q_pos)
  have ip: "innerProductInt ?row x = Inr ?ip"
    using assms innerProductInt_value[of ?row x] by simp
  have res: "negacyclicMulModQ poly x N RLWE_Q = Inr ?res"
    using assms by (simp add: negacyclicMulModQ_value RLWE_Q_pos)
  have "?ip mod RLWE_Q = ?res ! i"
    using assms(3) by (simp add: row_inner_product_mod')
  then show ?thesis using row ip res by blast
qed

theorem matrix_row_inner_product_is_mul_coefficient_witness:
  "length (replicate 1024 (1::int)) = N \<and> length (replicate 1024 (2::int)) = N \<and> (0::nat) < N
   \<and> (\<exists>row ip res. negacyclicMatrixRowModQ (replicate 1024 1) 0 N RLWE_Q = Inr row
           \<and> innerProductInt row (replicate 1024 2) = Inr ip
           \<and> negacyclicMulModQ (replicate 1024 1) (replicate 1024 2) N RLWE_Q = Inr res
           \<and> ip mod RLWE_Q = res ! 0)"
  using matrix_row_inner_product_is_mul_coefficient[of "replicate 1024 1" "replicate 1024 2" 0]
  by (simp add: N_def)

section \<open>Merkle accumulator: the two roots and the membership path\<close>

definition tree_after :: "(int \<Rightarrow> int \<Rightarrow> int) \<Rightarrow> int list \<Rightarrow> ShieldedPoolMerkleTree" where
  \<comment> \<open>the tree object after the constructor and one \<open>insert\<close> per commitment, in order\<close>
  "tree_after H cs = foldl (\<lambda>t c. fst (insert_leaf t c)) (new_tree H) cs"

fun recombine_path :: "(int \<Rightarrow> int \<Rightarrow> int) \<Rightarrow> int \<Rightarrow> nat \<Rightarrow> int list \<Rightarrow> int" where
  \<comment> \<open>the verifier's fold of a path, as the specification words it: at each level the
      running value is the right input when the index bit is 1, the left input otherwise\<close>
  "recombine_path H cur idx [] = cur"
| "recombine_path H cur idx (s # ss) =
     recombine_path H (if idx mod 2 = 1 then H s cur else H cur s) (idx div 2) ss"

lemma insert_leaf_fields:
  "leaves (fst (insert_leaf t c)) = leaves t @ [c]"
  "defaultHashes (fst (insert_leaf t c)) = defaultHashes t"
  "snd (insert_leaf t c) = length (leaves t)"
  by (simp_all add: insert_leaf_def)

lemma foldl_insert_fields:
  "leaves (foldl (\<lambda>t c. fst (insert_leaf t c)) t0 cs) = leaves t0 @ cs
   \<and> defaultHashes (foldl (\<lambda>t c. fst (insert_leaf t c)) t0 cs) = defaultHashes t0"
  by (induction cs arbitrary: t0) (simp_all add: insert_leaf_fields)

lemma ladder_keeps_zero:
  "0 \<notin> set is \<Longrightarrow> foldl (\<lambda>dh i. dh[i := f dh i]) dh0 is ! 0 = dh0 ! 0"
  by (induction "is" arbitrary: dh0) auto

lemma new_tree_fields:
  "leaves (new_tree H) = []" "defaultHashes (new_tree H) ! 0 = 0"
proof -
  show "leaves (new_tree H) = []" by (simp add: new_tree_def)
  have "defaultHashes (new_tree H) ! 0 = replicate (TREE_DEPTH + 1) (0::int) ! 0"
    unfolding new_tree_def
    using ladder_keeps_zero[of "[1..<TREE_DEPTH + 1]" "\<lambda>dh i. H (dh ! (i - 1)) (dh ! (i - 1))"]
    by simp
  then show "defaultHashes (new_tree H) ! 0 = 0" by simp
qed

lemma tree_after_fields:
  "leaves (tree_after H cs) = cs" "defaultHashes (tree_after H cs) ! 0 = 0"
  by (simp_all add: tree_after_def foldl_insert_fields new_tree_fields)

definition level_ok :: "(int \<Rightarrow> int \<Rightarrow> int) \<Rightarrow> int list \<Rightarrow> int list \<Rightarrow> nat \<Rightarrow> int list \<Rightarrow> bool" where
  "level_ok H ls dh i cur \<longleftrightarrow>
     (\<forall>j < 2 ^ (TREE_DEPTH - i). nth_or cur j (dh ! i) = calculateRootAtLevel H ls i j)"

lemma nth_or_in_range: "j < length xs \<Longrightarrow> nth_or xs j d = xs ! j"
  by (simp add: nth_or_def nth_opt_def)

lemma nth_or_out_of_range: "length xs \<le> j \<Longrightarrow> nth_or xs j d = d"
  by (simp add: nth_or_def nth_opt_def)

lemma level_ok_leaves: "dh ! 0 = 0 \<Longrightarrow> level_ok H ls dh 0 ls"
  by (simp add: level_ok_def)

lemma level_ok_nodes:
  "level_ok H ls dh i (map (calculateRootAtLevel H ls i) [0..<2 ^ (TREE_DEPTH - i)])"
  by (simp add: level_ok_def nth_or_in_range)

lemma half_width:
  assumes "i < TREE_DEPTH"
  shows "((2::nat) ^ (TREE_DEPTH - i) + 1) div 2 = 2 ^ (TREE_DEPTH - Suc i)"
    and "(2::nat) ^ (TREE_DEPTH - i) = 2 * 2 ^ (TREE_DEPTH - Suc i)"
proof -
  have "TREE_DEPTH - i = Suc (TREE_DEPTH - Suc i)" using assms by simp
  then show "(2::nat) ^ (TREE_DEPTH - i) = 2 * 2 ^ (TREE_DEPTH - Suc i)" by simp
  then show "((2::nat) ^ (TREE_DEPTH - i) + 1) div 2 = 2 ^ (TREE_DEPTH - Suc i)" by simp
qed

lemma next_level_nodes:
  assumes "i < TREE_DEPTH" "level_ok H ls dh i cur"
  shows "next_level H dh i cur
         = map (calculateRootAtLevel H ls (Suc i)) [0..<2 ^ (TREE_DEPTH - Suc i)]"
proof -
  have "H (nth_or cur (2 * p) (dh ! i)) (nth_or cur (2 * p + 1) (dh ! i))
        = calculateRootAtLevel H ls (Suc i) p" if "p < 2 ^ (TREE_DEPTH - Suc i)" for p
  proof -
    have "2 * p < 2 ^ (TREE_DEPTH - i)" "2 * p + 1 < 2 ^ (TREE_DEPTH - i)"
      using that half_width(2)[OF assms(1)] by simp_all
    then show ?thesis using assms(2) by (simp add: level_ok_def mult.commute)
  qed
  then show ?thesis
    unfolding next_level_def half_width(1)[OF assms(1)]
    by (intro map_cong refl) simp
qed

lemma levels_loop:
  assumes "dh ! 0 = 0" "m \<le> TREE_DEPTH"
  shows "foldl (\<lambda>cur i. next_level H dh i cur) ls [0..<m]
         = (if m = 0 then ls else map (calculateRootAtLevel H ls m) [0..<2 ^ (TREE_DEPTH - m)])"
  using assms(2)
proof (induction m)
  case 0
  then show ?case by simp
next
  case (Suc m)
  then have m: "m < TREE_DEPTH" by simp
  let ?cur = "foldl (\<lambda>cur i. next_level H dh i cur) ls [0..<m]"
  have "level_ok H ls dh m ?cur"
    using Suc.IH m assms(1) by (cases "m = 0") (simp_all add: level_ok_leaves level_ok_nodes)
  then show ?case using next_level_nodes[OF m] by simp
qed

lemma TREE_DEPTH_pos: "0 < TREE_DEPTH"
  by (simp add: TREE_DEPTH_def)

lemma getRoot_node:
  assumes "defaultHashes t ! 0 = 0"
  shows "getRoot H t = calculateRootAtLevel H (leaves t) TREE_DEPTH 0"
  using TREE_DEPTH_pos by (simp add: getRoot_def levels_loop[OF assms order_refl])

text \<open>
  C4: for every sequence of inserted commitments (of any length, in particular of at most
  \<open>2^16\<close>), \<open>getRoot\<close> and \<open>getRootOptimized\<close> return the same value on the resulting tree.
\<close>

theorem getRoot_eq_getRootOptimized:
  "getRoot H (tree_after H cs) = getRootOptimized H (tree_after H cs)"
  by (simp add: getRoot_node tree_after_fields getRootOptimized_def)


definition sibling_of :: "nat \<Rightarrow> nat" where
  "sibling_of x = (if x mod 2 = 1 then x - 1 else x + 1)"

lemma index_at_level:
  fixes j :: nat
  assumes "j < 2 ^ TREE_DEPTH" "m \<le> TREE_DEPTH"
  shows "j div 2 ^ m < 2 ^ (TREE_DEPTH - m)"
proof -
  have "(2::nat) ^ TREE_DEPTH = 2 ^ (TREE_DEPTH - m) * 2 ^ m"
    using assms(2) by (simp flip: power_add)
  then show ?thesis using assms(1) by (simp add: less_mult_imp_div_less)
qed

lemma sibling_in_level:
  assumes "x < 2 ^ (TREE_DEPTH - m)" "m < TREE_DEPTH"
  shows "sibling_of x < 2 ^ (TREE_DEPTH - m)"
proof -
  obtain w :: nat where w: "2 ^ (TREE_DEPTH - m) = 2 * w"
    using half_width(2)[OF assms(2)] by blast
  show ?thesis using assms(1) unfolding w sibling_of_def by presburger
qed

lemma proof_loop:
  fixes j :: nat
  assumes "dh ! 0 = 0" "j < 2 ^ TREE_DEPTH" "m \<le> TREE_DEPTH"
  shows "foldl (proof_step H dh) ([], j, ls) [0..<m]
         = (map (\<lambda>l. calculateRootAtLevel H ls l (sibling_of (j div 2 ^ l))) [0..<m],
            j div 2 ^ m,
            foldl (\<lambda>cur i. next_level H dh i cur) ls [0..<m])"
  using assms(3)
proof (induction m)
  case 0
  then show ?case by simp
next
  case (Suc m)
  then have m: "m < TREE_DEPTH" and m': "m \<le> TREE_DEPTH" by simp_all
  let ?cur = "foldl (\<lambda>cur i. next_level H dh i cur) ls [0..<m]"
  have ok: "level_ok H ls dh m ?cur"
    using levels_loop[OF assms(1) m', of H ls] assms(1)
    by (cases "m = 0") (simp_all add: level_ok_leaves level_ok_nodes)
  have "sibling_of (j div 2 ^ m) < 2 ^ (TREE_DEPTH - m)"
    using sibling_in_level[OF index_at_level[OF assms(2) m'] m] .
  then have sib: "nth_or ?cur (sibling_of (j div 2 ^ m)) (dh ! m)
                  = calculateRootAtLevel H ls m (sibling_of (j div 2 ^ m))"
    using ok by (simp add: level_ok_def)
  have idx: "j div 2 ^ m div 2 = j div 2 ^ Suc m"
    using div_mult2_eq[of j "2 ^ m" 2] by (simp add: mult.commute)
  show ?case
    using Suc.IH[OF m'] sib idx
    by (simp add: proof_step_def Let_def sibling_of_def)
qed

lemma node_of_children:
  "(if x mod 2 = 1
    then H (calculateRootAtLevel H ls m (sibling_of x)) (calculateRootAtLevel H ls m x)
    else H (calculateRootAtLevel H ls m x) (calculateRootAtLevel H ls m (sibling_of x)))
   = calculateRootAtLevel H ls (Suc m) (x div 2)"
proof (cases "x mod 2 = 1")
  case True
  then have "x div 2 * 2 = x - 1" "x div 2 * 2 + 1 = x" by presburger+
  then show ?thesis using True by (simp add: sibling_of_def)
next
  case False
  then have "x div 2 * 2 = x" by presburger
  then show ?thesis using False by (simp add: sibling_of_def)
qed

lemma recombine_nodes:
  assumes "m \<le> TREE_DEPTH" "k = TREE_DEPTH - m"
  shows "recombine_path H (calculateRootAtLevel H ls m (j div 2 ^ m)) (j div 2 ^ m)
           (map (\<lambda>l. calculateRootAtLevel H ls l (sibling_of (j div 2 ^ l))) [m..<TREE_DEPTH])
         = calculateRootAtLevel H ls TREE_DEPTH (j div 2 ^ TREE_DEPTH)"
  using assms
proof (induction k arbitrary: m)
  case 0
  then have "m = TREE_DEPTH" by simp
  then show ?case by simp
next
  case (Suc k)
  then have m: "m < TREE_DEPTH" and k: "k = TREE_DEPTH - Suc m" and m': "Suc m \<le> TREE_DEPTH"
    by simp_all
  have idx: "j div 2 ^ m div 2 = j div 2 ^ Suc m"
    using div_mult2_eq[of j "2 ^ m" 2] by (simp add: mult.commute)
  show ?case
    using Suc.IH[OF m' k] m
    by (simp only: upt_conv_Cons[OF m] list.map recombine_path.simps node_of_children idx)
qed

text \<open>
  C7: for every tree built from \<open>n \<le> 2^16\<close> inserted leaves and every index \<open>j < n\<close>,
  \<open>getProof j\<close> has exactly 16 siblings, and folding leaf \<open>j\<close> upward through them
  (left or right by the bits of \<open>j\<close>) gives \<open>getRoot\<close> of the same tree.
\<close>

theorem getProof_recombines_to_root:
  assumes "j < length cs" "length cs \<le> 2 ^ 16"
  shows "length (getProof H (tree_after H cs) j) = 16
         \<and> recombine_path H (cs ! j) j (getProof H (tree_after H cs) j)
             = getRoot H (tree_after H cs)"
proof -
  let ?t = "tree_after H cs"
  have j: "j < 2 ^ TREE_DEPTH" using assms by (simp add: TREE_DEPTH_def)
  have dh: "defaultHashes ?t ! 0 = 0" by (simp add: tree_after_fields)
  have path: "getProof H ?t j
             = map (\<lambda>l. calculateRootAtLevel H cs l (sibling_of (j div 2 ^ l))) [0..<TREE_DEPTH]"
    by (simp add: getProof_def proof_loop[OF dh j order_refl] tree_after_fields)
  have len: "length (getProof H ?t j) = 16"
    by (simp add: path) (simp add: TREE_DEPTH_def)
  have "recombine_path H (calculateRootAtLevel H cs 0 (j div 2 ^ 0)) (j div 2 ^ 0)
           (getProof H ?t j)
        = calculateRootAtLevel H cs TREE_DEPTH (j div 2 ^ TREE_DEPTH)"
    unfolding path by (rule recombine_nodes) simp_all
  moreover have "calculateRootAtLevel H cs 0 (j div 2 ^ 0) = cs ! j"
    using assms(1) by (simp add: nth_or_in_range)
  moreover have "j div 2 ^ TREE_DEPTH = 0" using j by simp
  ultimately have "recombine_path H (cs ! j) j (getProof H ?t j)
                   = calculateRootAtLevel H cs TREE_DEPTH 0"
    by simp
  then show ?thesis using len by (simp add: getRoot_node[OF dh] tree_after_fields)
qed

theorem getProof_recombines_to_root_witness:
  "(1::nat) < length [11, 22, 33 :: int] \<and> length [11, 22, 33 :: int] \<le> 2 ^ 16
   \<and> length (getProof (\<lambda>l r. 2 * l + 3 * r + 1) (tree_after (\<lambda>l r. 2 * l + 3 * r + 1) [11, 22, 33]) 1) = 16
   \<and> recombine_path (\<lambda>l r. 2 * l + 3 * r + 1) 22 1
        (getProof (\<lambda>l r. 2 * l + 3 * r + 1) (tree_after (\<lambda>l r. 2 * l + 3 * r + 1) [11, 22, 33]) 1)
      = getRoot (\<lambda>l r. 2 * l + 3 * r + 1) (tree_after (\<lambda>l r. 2 * l + 3 * r + 1) [11, 22, 33])"
  using getProof_recombines_to_root[of 1 "[11, 22, 33]" "\<lambda>l r. 2 * l + 3 * r + 1"]
  by simp

section \<open>Identity keypair\<close>

lemma MAX_128_BIT_succ: "MAX_128_BIT + 1 = 2 ^ 128"
  by (simp add: MAX_128_BIT_def)

lemma bigint_rem_of_multiple: "b dvd a \<Longrightarrow> bigint_rem a b = 0"
  by (simp add: bigint_rem_def)

text \<open>
  C10: the curve multiplication is the library's; it is a parameter here, assumed to throw
  at the scalar 0 and to return the point \<open>G k\<close> for \<open>0 < k < n\<close>. Then for every seed that
  is a multiple of \<open>2^128\<close> key generation fails with the library's error, and for every other
  non-negative seed it returns \<open>secretKey = seed mod 2^128 < 2^128\<close> and
  \<open>publicKey = G secretKey\<close>.
\<close>

theorem generateIdentityKeypair_partial:
  assumes "multiply 0 = Inl e"
    and "\<forall>k. 0 < k \<and> k < BABYJUBJUB_N \<longrightarrow> multiply k = Inr (G k)"
  shows "(2 ^ 128 dvd seed \<longrightarrow> generateIdentityKeypair multiply seed = Inl e)
       \<and> (0 \<le> seed \<and> \<not> 2 ^ 128 dvd seed \<longrightarrow>
            generateIdentityKeypair multiply seed
              = Inr \<lparr>secretKey = seed mod 2 ^ 128, publicKey = G (seed mod 2 ^ 128)\<rparr>
            \<and> 0 < seed mod 2 ^ 128 \<and> seed mod 2 ^ 128 < 2 ^ 128)"
proof (intro conjI impI)
  assume "2 ^ 128 dvd seed"
  then have "bigint_rem seed (MAX_128_BIT + 1) = 0"
    by (simp add: MAX_128_BIT_succ bigint_rem_of_multiple)
  then show "generateIdentityKeypair multiply seed = Inl e"
    using assms(1) by (simp add: generateIdentityKeypair_def)
next
  assume a: "0 \<le> seed \<and> \<not> 2 ^ 128 dvd seed"
  define sk where "sk = seed mod 2 ^ 128"
  have rem: "bigint_rem seed (MAX_128_BIT + 1) = sk"
    using a by (simp add: MAX_128_BIT_succ bigint_rem_nonneg sk_def)
  have "sk \<noteq> 0" using a by (simp add: sk_def dvd_eq_mod_eq_0)
  moreover have "0 \<le> sk" "sk < 2 ^ 128" by (simp_all add: sk_def)
  ultimately have rng: "0 < sk" "sk < 2 ^ 128" by simp_all
  then have "sk < BABYJUBJUB_N" by (simp add: BABYJUBJUB_N_def)
  then have "multiply sk = Inr (G sk)" using assms(2) rng(1) by simp
  then have "generateIdentityKeypair multiply seed = Inr \<lparr>secretKey = sk, publicKey = G sk\<rparr>"
    using rem by (simp add: generateIdentityKeypair_def)
  then show "generateIdentityKeypair multiply seed
              = Inr \<lparr>secretKey = seed mod 2 ^ 128, publicKey = G (seed mod 2 ^ 128)\<rparr>"
    and "0 < seed mod 2 ^ 128" and "seed mod 2 ^ 128 < 2 ^ 128"
    using rng by (simp_all add: sk_def)
qed

theorem generateIdentityKeypair_partial_witness:
  "generateIdentityKeypair
     (\<lambda>k. if 0 < k \<and> k < BABYJUBJUB_N then Inr (k, 2 * k) else Inl ''invalid scalar'')
     (3 * 2 ^ 128) = Inl ''invalid scalar''
   \<and> generateIdentityKeypair
     (\<lambda>k. if 0 < k \<and> k < BABYJUBJUB_N then Inr (k, 2 * k) else Inl ''invalid scalar'')
     (2 ^ 128 + 7) = Inr \<lparr>secretKey = 7, publicKey = (7, 14)\<rparr>"
  using generateIdentityKeypair_partial[of
      "\<lambda>k. if 0 < k \<and> k < BABYJUBJUB_N then Inr (k, 2 * k) else Inl ''invalid scalar''"
      "''invalid scalar''" "\<lambda>k. (k, 2 * k)" "3 * 2 ^ 128"]
    generateIdentityKeypair_partial[of
      "\<lambda>k. if 0 < k \<and> k < BABYJUBJUB_N then Inr (k, 2 * k) else Inl ''invalid scalar''"
      "''invalid scalar''" "\<lambda>k. (k, 2 * k)" "2 ^ 128 + 7"]
  by simp

section \<open>Shamir reconstruction from two shares\<close>

lemma BN254_P_pos: "0 < BN254_P"
  by (simp add: BN254_P_def)

lemma bigint_rem_zero [simp]: "bigint_rem 0 m = 0"
  by (simp add: bigint_rem_def)

lemma mod_norm_zero: "0 < q \<Longrightarrow> mod_norm 0 q = 0"
  by (simp add: mod_norm_eq)

lemma modPow_loop_unfold:
  "0 < exp \<Longrightarrow> modPow_loop result base exp m
     = modPow_loop (if exp AND 1 \<noteq> 0 then bigint_rem (result * base) m else result)
         (bigint_rem (base * base) m) (drop_bit 1 exp) m"
  "\<not> 0 < exp \<Longrightarrow> modPow_loop result base exp m = result"
  by (subst modPow_loop.simps, simp)+

lemma modPow_loop_all_zero:
  "r = 0 \<Longrightarrow> b = 0 \<Longrightarrow> modPow_loop r b e m = 0"
proof (induction r b e m rule: modPow_loop.induct)
  case (1 result base exp m)
  show ?case
  proof (cases "0 < exp")
    case True
    then show ?thesis
      using "1.IH" "1.prems" by (simp add: modPow_loop_unfold(1))
  next
    case False
    then show ?thesis using "1.prems" by (simp add: modPow_loop_unfold(2))
  qed
qed

lemma modPow_loop_zero_base:
  "0 < e \<Longrightarrow> b = 0 \<Longrightarrow> modPow_loop r b e m = 0"
proof (induction r b e m rule: modPow_loop.induct)
  case (1 result base exp m)
  have step: "modPow_loop result base exp m
     = modPow_loop (if exp AND 1 \<noteq> 0 then bigint_rem (result * base) m else result)
         (bigint_rem (base * base) m) (drop_bit 1 exp) m"
    using "1.prems"(1) by (rule modPow_loop_unfold(1))
  show ?case
  proof (cases "exp AND 1 \<noteq> 0")
    case True
    then show ?thesis
      unfolding step using "1.prems" by (simp add: modPow_loop_all_zero)
  next
    case False
    then have "even exp" by (simp add: and_one_eq even_iff_mod_2_eq_zero)
    then have "0 < drop_bit 1 exp"
      using "1.prems"(1) by (auto simp: drop_bit_eq_div elim!: evenE)
    then show ?thesis
      unfolding step using "1.IH"[OF "1.prems"(1)] "1.prems"(2) False by simp
  qed
qed

lemma shamir_two_shares:
  "shamirReconstructField [(x1, y1), (x2, y2)] 2
   = Inr (bigint_rem
       (bigint_rem
          (bigint_rem (bigint_rem (y1 * (bigint_rem (- x2) BN254_P + BN254_P)) BN254_P
             * modPow_loop 1 ((x1 - x2) mod BN254_P) (BN254_P - 2) BN254_P) BN254_P)
          BN254_P
        + bigint_rem (bigint_rem (y2 * (bigint_rem (- x1) BN254_P + BN254_P)) BN254_P
             * modPow_loop 1 ((x2 - x1) mod BN254_P) (BN254_P - 2) BN254_P) BN254_P)
       BN254_P)"
proof -
  have two: "[0..<2] = [0, Suc 0]" by (simp add: numeral_2_eq_2)
  have nz: "BN254_P \<noteq> 0" using BN254_P_pos by simp
  show ?thesis
    by (simp add: shamirReconstructField_def slice0_def two lagrange_factor_def nth_opt_def
        modPow_def nz Let_def mod_norm_eq BN254_P_pos)
qed

lemma shamir_two_shares_equal_x:
  "shamirReconstructField [(x, y1), (x, y2)] 2 = Inr 0"
proof -
  have "0 < BN254_P - 2" by (simp add: BN254_P_def)
  then have "modPow_loop 1 ((x - x) mod BN254_P) (BN254_P - 2) BN254_P = 0"
    by (simp add: modPow_loop_zero_base)
  then show ?thesis by (simp add: shamir_two_shares)
qed

lemma shamir_threshold_above_two:
  assumes "3 \<le> t"
  shows "shamirReconstructField [(x1, y1), (x2, y2)] t = Inl TypeError"
proof -
  have "nat t = Suc (Suc (Suc (nat t - 3)))" using assms by simp
  then obtain k where k: "nat t = Suc (Suc (Suc k))" ..
  have up: "[0..<nat t] = 0 # Suc 0 # Suc (Suc 0) # [3..<nat t]"
    unfolding k by (simp add: upt_conv_Cons numeral_3_eq_3)
  have t0: "0 \<le> t" using assms by simp
  have tk: "take (nat t) [(x1, y1), (x2, y2)] = [(x1, y1), (x2, y2)]"
    unfolding k by simp
  have nz: "BN254_P \<noteq> 0" using BN254_P_pos by simp
  show ?thesis
    by (simp add: shamirReconstructField_def slice0_def t0 tk up lagrange_factor_def nth_opt_def
        modPow_def nz Let_def)
qed

section \<open>The ciphertext in closed form\<close>

lemma MSG_SLOTS_le_N: "MSG_SLOTS \<le> N"
  by (simp add: MSG_SLOTS_def N_def)

lemma mod_add3_left:
  fixes a b c q :: int
  shows "(a mod q + b mod q + c) mod q = (a + b + c) mod q"
  by (intro mod_add_cong) simp_all

lemma mod_add2_both:
  fixes a b q :: int
  shows "(a mod q + b mod q) mod q = (a + b) mod q"
  by (intro mod_add_cong) simp_all

lemma encrypt_c0_at_value:
  assumes "i < MSG_SLOTS" "N \<le> length (pk_b pk)" "length r = N"
    "length e1 = MSG_SLOTS" "length m = MSG_SLOTS"
  shows "encrypt_c0_at pk (map (\<lambda>v. mod_norm v RLWE_Q) r) (map (\<lambda>v. mod_norm v RLWE_Q) e1) m i
         = Inr ((nconv (pk_b pk) r N i + e1 ! i + DELTA * m ! i) mod RLWE_Q)"
proof -
  let ?row = "map (\<lambda>j. ncoef (pk_b pk) N i j mod RLWE_Q) [0..<N]"
  let ?rq = "map (\<lambda>v. mod_norm v RLWE_Q) r"
  have i: "i < N" using assms(1) MSG_SLOTS_le_N by simp
  have row: "negacyclicMatrixRowModQ (pk_b pk) i N RLWE_Q = Inr ?row"
    using i assms(2) by (simp add: negacyclicMatrixRowModQ_value RLWE_Q_pos)
  have "(\<Sum>j<N. ?row ! j * ?rq ! j) = (\<Sum>j<N. (ncoef (pk_b pk) N i j mod RLWE_Q) * (r ! j mod RLWE_Q))"
    using assms(3) by (intro sum.cong refl) (simp add: mod_norm_eq RLWE_Q_pos)
  then have ip: "inner_product_mod_q ?row ?rq = Inr (nconv (pk_b pk) r N i mod RLWE_Q)"
    using assms(3) by (simp add: inner_product_mod_q_value row_inner_product_mod)
  have "mod_norm (nconv (pk_b pk) r N i mod RLWE_Q + mod_norm (e1 ! i) RLWE_Q + DELTA * m ! i) RLWE_Q
        = (nconv (pk_b pk) r N i + e1 ! i + DELTA * m ! i) mod RLWE_Q"
    by (simp add: mod_norm_eq RLWE_Q_pos mod_add3_left)
  then show ?thesis
    using row ip assms(1,4,5) by (simp add: encrypt_c0_at_def at_in_range)
qed

lemma encrypt_c1_at_value:
  assumes "i < N" "N \<le> length (pk_a pk)" "length r = N" "length e2 = N"
  shows "encrypt_c1_at pk (map (\<lambda>v. mod_norm v RLWE_Q) r) (map (\<lambda>v. mod_norm v RLWE_Q) e2) i
         = Inr ((nconv (pk_a pk) r N i + e2 ! i) mod RLWE_Q)"
proof -
  let ?row = "map (\<lambda>j. ncoef (pk_a pk) N i j mod RLWE_Q) [0..<N]"
  let ?rq = "map (\<lambda>v. mod_norm v RLWE_Q) r"
  have row: "negacyclicMatrixRowModQ (pk_a pk) i N RLWE_Q = Inr ?row"
    using assms(1,2) by (simp add: negacyclicMatrixRowModQ_value RLWE_Q_pos)
  have "(\<Sum>j<N. ?row ! j * ?rq ! j) = (\<Sum>j<N. (ncoef (pk_a pk) N i j mod RLWE_Q) * (r ! j mod RLWE_Q))"
    using assms(3) by (intro sum.cong refl) (simp add: mod_norm_eq RLWE_Q_pos)
  then have ip: "inner_product_mod_q ?row ?rq = Inr (nconv (pk_a pk) r N i mod RLWE_Q)"
    using assms(3) by (simp add: inner_product_mod_q_value row_inner_product_mod)
  have "mod_norm (nconv (pk_a pk) r N i mod RLWE_Q + mod_norm (e2 ! i) RLWE_Q) RLWE_Q
        = (nconv (pk_a pk) r N i + e2 ! i) mod RLWE_Q"
    by (simp add: mod_norm_eq RLWE_Q_pos mod_add2_both)
  then show ?thesis
    using row ip assms(1,4) by (simp add: encrypt_c1_at_def at_in_range)
qed

definition message_slots :: "int \<Rightarrow> int \<Rightarrow> int list" where
  "message_slots x y = encodeFieldToBytes x 32 @ encodeFieldToBytes y 32"

lemma length_message_slots: "length (message_slots x y) = MSG_SLOTS"
  by (simp add: message_slots_def encodeFieldToBytes_def MSG_SLOTS_def)

lemma rlweEncryptWith_value:
  assumes "N \<le> length (pk_a pk)" "N \<le> length (pk_b pk)"
    "length r = N" "length e1 = MSG_SLOTS" "length e2 = N"
  shows "rlweEncryptWith pk x y r e1 e2
         = Inr \<lparr>c0Sparse = map (\<lambda>i. (nconv (pk_b pk) r N i + e1 ! i
                                     + DELTA * message_slots x y ! i) mod RLWE_Q) [0..<MSG_SLOTS],
                c1 = map (\<lambda>i. (nconv (pk_a pk) r N i + e2 ! i) mod RLWE_Q) [0..<N],
                rSigned = r, e1Signed = e1, e2Signed = e2, msg = message_slots x y\<rparr>"
proof -
  have c0: "mapE (encrypt_c0_at pk (map (\<lambda>v. mod_norm v RLWE_Q) r)
                    (map (\<lambda>v. mod_norm v RLWE_Q) e1) (message_slots x y)) [0..<MSG_SLOTS]
            = Inr (map (\<lambda>i. (nconv (pk_b pk) r N i + e1 ! i
                                + DELTA * message_slots x y ! i) mod RLWE_Q) [0..<MSG_SLOTS])"
    by (rule mapE_all_Inr)
       (use assms in \<open>simp add: encrypt_c0_at_value length_message_slots\<close>)
  have c1: "mapE (encrypt_c1_at pk (map (\<lambda>v. mod_norm v RLWE_Q) r)
                    (map (\<lambda>v. mod_norm v RLWE_Q) e2)) [0..<N]
            = Inr (map (\<lambda>i. (nconv (pk_a pk) r N i + e2 ! i) mod RLWE_Q) [0..<N])"
    by (rule mapE_all_Inr) (use assms in \<open>simp add: encrypt_c1_at_value\<close>)
  show ?thesis
    unfolding rlweEncryptWith_def Let_def message_slots_def[symmetric]
    by (simp add: c0 c1)
qed

definition noise_r :: "(nat \<Rightarrow> nat) \<Rightarrow> int list" where
  "noise_r rnd = map (\<lambda>k. smallNoise (rnd k)) [0..<N]"

definition noise_e1 :: "(nat \<Rightarrow> nat) \<Rightarrow> int list" where
  "noise_e1 rnd = map (\<lambda>k. smallNoise (rnd (N + k))) [0..<MSG_SLOTS]"

definition noise_e2 :: "(nat \<Rightarrow> nat) \<Rightarrow> int list" where
  "noise_e2 rnd = map (\<lambda>k. smallNoise (rnd (N + MSG_SLOTS + k))) [0..<N]"

lemma rlweEncrypt_noise:
  "rlweEncrypt pk rnd x y = rlweEncryptWith pk x y (noise_r rnd) (noise_e1 rnd) (noise_e2 rnd)"
  by (simp add: rlweEncrypt_def noise_r_def noise_e1_def noise_e2_def)

lemma length_noise [simp]:
  "length (noise_r rnd) = N" "length (noise_e1 rnd) = MSG_SLOTS" "length (noise_e2 rnd) = N"
  by (simp_all add: noise_r_def noise_e1_def noise_e2_def)

lemma smallNoise_range: "- 3 \<le> smallNoise b \<and> smallNoise b \<le> 3"
proof -
  have "b mod 7 < 7" by simp
  then show ?thesis unfolding smallNoise_def by linarith
qed

lemma smallNoise_abs: "\<bar>smallNoise b\<bar> \<le> 3"
  using smallNoise_range[of b] by linarith

lemma noise_range:
  "i < N \<Longrightarrow> \<bar>noise_r rnd ! i\<bar> \<le> 3"
  "i < MSG_SLOTS \<Longrightarrow> \<bar>noise_e1 rnd ! i\<bar> \<le> 3"
  "i < N \<Longrightarrow> \<bar>noise_e2 rnd ! i\<bar> \<le> 3"
  by (simp_all add: noise_r_def noise_e1_def noise_e2_def smallNoise_abs)

lemma rlweEncrypt_value:
  assumes "N \<le> length (pk_a pk)" "N \<le> length (pk_b pk)"
  shows "rlweEncrypt pk rnd x y
         = Inr \<lparr>c0Sparse = map (\<lambda>i. (nconv (pk_b pk) (noise_r rnd) N i + noise_e1 rnd ! i
                                     + DELTA * message_slots x y ! i) mod RLWE_Q) [0..<MSG_SLOTS],
                c1 = map (\<lambda>i. (nconv (pk_a pk) (noise_r rnd) N i + noise_e2 rnd ! i) mod RLWE_Q)
                       [0..<N],
                rSigned = noise_r rnd, e1Signed = noise_e1 rnd, e2Signed = noise_e2 rnd,
                msg = message_slots x y\<rparr>"
  unfolding rlweEncrypt_noise by (rule rlweEncryptWith_value) (use assms in simp_all)

lemma matrix_row_needs_full_poly:
  assumes "negacyclicMatrixRowModQ poly 0 N q = Inr row"
  shows "N \<le> length poly"
proof -
  have "1 < length [0..<N]" by (simp add: N_def)
  then have "matrix_row_entry poly 0 N q ([0..<N] ! 1) = Inr (row ! 1)"
    using mapE_eq_Inr[OF assms[unfolded negacyclicMatrixRowModQ_def]] by blast
  then have "matrix_row_entry poly 0 N q 1 = Inr (row ! 1)"
    by (simp add: N_def)
  then have "nth_opt poly (N - 1) \<noteq> None"
    by (auto simp: matrix_row_entry_def split: option.splits)
  then show ?thesis by (simp add: nth_opt_def N_def split: if_splits)
qed

lemma rlweEncryptWith_needs_full_key:
  assumes "rlweEncryptWith pk x y r e1 e2 = Inr ct"
  shows "N \<le> length (pk_a pk) \<and> N \<le> length (pk_b pk)"
proof -
  from assms obtain c0 c1' where
    c0: "mapE (encrypt_c0_at pk (map (\<lambda>v. mod_norm v RLWE_Q) r)
            (map (\<lambda>v. mod_norm v RLWE_Q) e1)
            (encodeFieldToBytes x 32 @ encodeFieldToBytes y 32)) [0..<MSG_SLOTS] = Inr c0"
    and c1: "mapE (encrypt_c1_at pk (map (\<lambda>v. mod_norm v RLWE_Q) r)
            (map (\<lambda>v. mod_norm v RLWE_Q) e2)) [0..<N] = Inr c1'"
    by (auto simp: rlweEncryptWith_def Let_def bindE_eq_Inr)
  have "0 < length [0..<MSG_SLOTS]" by (simp add: MSG_SLOTS_def)
  then have "\<exists>v. encrypt_c0_at pk (map (\<lambda>v. mod_norm v RLWE_Q) r)
            (map (\<lambda>v. mod_norm v RLWE_Q) e1)
            (encodeFieldToBytes x 32 @ encodeFieldToBytes y 32) ([0..<MSG_SLOTS] ! 0) = Inr v"
    using mapE_eq_Inr[OF c0] by blast
  then have b: "\<exists>row. negacyclicMatrixRowModQ (pk_b pk) 0 N RLWE_Q = Inr row"
    by (auto simp: encrypt_c0_at_def bindE_eq_Inr MSG_SLOTS_def)
  have "0 < length [0..<N]" by (simp add: N_def)
  then have "\<exists>v. encrypt_c1_at pk (map (\<lambda>v. mod_norm v RLWE_Q) r)
            (map (\<lambda>v. mod_norm v RLWE_Q) e2) ([0..<N] ! 0) = Inr v"
    using mapE_eq_Inr[OF c1] by blast
  then have a: "\<exists>row. negacyclicMatrixRowModQ (pk_a pk) 0 N RLWE_Q = Inr row"
    by (auto simp: encrypt_c1_at_def bindE_eq_Inr N_def)
  show ?thesis using a b matrix_row_needs_full_poly by blast
qed

section \<open>Reconstruction of the secret ring\<close>

lemma centeredMod_zero: "centeredMod 0 BN254_P = Inr 0"
  using BN254_P_pos by (simp add: centeredMod_value)

lemma reconstruct_coeff_threshold_two:
  assumes "threshold s1 = 2" "i < length (coefficients s1)" "i < length (coefficients s2)"
  shows "\<exists>v. reconstruct_coeff s1 s2 i = Inr v \<and> 0 \<le> v \<and> v < RLWE_Q
           \<and> (sc_x (coefficients s1 ! i) = sc_x (coefficients s2 ! i) \<longrightarrow> v = 0)"
proof -
  let ?p1 = "coefficients s1 ! i" and ?p2 = "coefficients s2 ! i"
  obtain val where val: "shamirReconstructField [(sc_x ?p1, sc_y ?p1), (sc_x ?p2, sc_y ?p2)] 2 = Inr val"
    using shamir_two_shares by blast
  obtain sg where sg: "centeredMod val BN254_P = Inr sg"
    using centeredMod_value[OF BN254_P_pos] by blast
  have run: "reconstruct_coeff s1 s2 i = Inr (mod_norm sg RLWE_Q)"
    using assms val sg by (simp add: reconstruct_coeff_def at_in_range)
  have "mod_norm sg RLWE_Q = 0" if "sc_x ?p1 = sc_x ?p2"
  proof -
    have "val = 0" using val that by (simp add: shamir_two_shares_equal_x)
    then have "sg = 0" using sg by (simp add: centeredMod_zero)
    then show ?thesis by (simp add: mod_norm_zero RLWE_Q_pos)
  qed
  then show ?thesis using run mod_norm_range[OF RLWE_Q_pos, of sg] by simp
qed

lemma reconstruct_coeff_threshold_above_two:
  assumes "3 \<le> threshold s1"
  shows "reconstruct_coeff s1 s2 i = Inl TypeError"
proof (cases "at (coefficients s1) i")
  case (Inl e)
  then have "e = TypeError" by (auto simp: at_def split: option.splits)
  then show ?thesis using Inl by (simp add: reconstruct_coeff_def)
next
  case p1: (Inr p1)
  show ?thesis
  proof (cases "at (coefficients s2) i")
    case (Inl e)
    then have "e = TypeError" by (auto simp: at_def split: option.splits)
    then show ?thesis using Inl p1 by (simp add: reconstruct_coeff_def)
  next
    case (Inr p2)
    then show ?thesis
      using p1 assms by (simp add: reconstruct_coeff_def shamir_threshold_above_two)
  qed
qed

lemma N_pos: "0 < N"
  by (simp add: N_def)

lemma N_upt_Cons: "[0..<N] = 0 # [Suc 0..<N]"
  by (rule upt_conv_Cons) (rule N_pos)

lemma reconstructSk_threshold_above_two:
  assumes "3 \<le> threshold s1"
  shows "reconstructSk s1 s2 = Inl TypeError"
  unfolding reconstructSk_def N_upt_Cons
  by (simp add: reconstruct_coeff_threshold_above_two[OF assms])

lemma reconstructSk_threshold_two:
  assumes "threshold s1 = 2" "N \<le> length (coefficients s1)" "N \<le> length (coefficients s2)"
  shows "\<exists>sk. reconstructSk s1 s2 = Inr sk \<and> length sk = N
           \<and> (\<forall>i<N. sc_x (coefficients s1 ! i) = sc_x (coefficients s2 ! i) \<longrightarrow> sk ! i = 0)"
proof -
  define g where "g i = projr (reconstruct_coeff s1 s2 i)" for i
  have g: "reconstruct_coeff s1 s2 i = Inr (g i)" if "i < N" for i
  proof -
    have "\<exists>v. reconstruct_coeff s1 s2 i = Inr v"
      using reconstruct_coeff_threshold_two[OF assms(1), of i s2] that assms(2,3) by auto
    then show ?thesis unfolding g_def by auto
  qed
  have run: "reconstructSk s1 s2 = Inr (map g [0..<N])"
    unfolding reconstructSk_def by (rule mapE_all_Inr) (simp add: g)
  have "g i = 0" if "i < N" "sc_x (coefficients s1 ! i) = sc_x (coefficients s2 ! i)" for i
    using reconstruct_coeff_threshold_two[OF assms(1), of i s2] that assms(2,3) g[OF that(1)]
    by auto
  then show ?thesis using run by simp
qed

text \<open>
  C5 (as the code behaves): \<open>reconstructSk\<close> does not validate the share set. When the
  threshold exceeds the two shares it is given (threshold 3 or more) it returns no ring: it
  fails with a \<open>TypeError\<close> raised on the missing third share. When the threshold is 2 and
  both files hold the 1024 coefficients it always returns a ring, and at every position
  where the two shares have the same x-coordinate the coefficient is 0.
\<close>

theorem reconstructSk_no_share_validation:
  "(3 \<le> threshold s1 \<longrightarrow> reconstructSk s1 s2 = Inl TypeError)
   \<and> (threshold s1 = 2 \<and> N \<le> length (coefficients s1) \<and> N \<le> length (coefficients s2) \<longrightarrow>
        (\<exists>sk. reconstructSk s1 s2 = Inr sk \<and> length sk = N
           \<and> (\<forall>i<N. sc_x (coefficients s1 ! i) = sc_x (coefficients s2 ! i) \<longrightarrow> sk ! i = 0)))"
proof (intro conjI impI)
  assume "3 \<le> threshold s1"
  then show "reconstructSk s1 s2 = Inl TypeError"
    by (rule reconstructSk_threshold_above_two)
next
  assume "threshold s1 = 2 \<and> N \<le> length (coefficients s1) \<and> N \<le> length (coefficients s2)"
  then show "\<exists>sk. reconstructSk s1 s2 = Inr sk \<and> length sk = N
           \<and> (\<forall>i<N. sc_x (coefficients s1 ! i) = sc_x (coefficients s2 ! i) \<longrightarrow> sk ! i = 0)"
    using reconstructSk_threshold_two by simp
qed

definition duplicate_share :: ShareFile where
  "duplicate_share =
     \<lparr>share_index = 1, threshold = 2, num_shares = 3,
      coefficients = replicate N \<lparr>sc_x = 1, sc_y = 5\<rparr>\<rparr>"

lemma duplicate_share_fields:
  "threshold duplicate_share = 2" "length (coefficients duplicate_share) = N"
  "i < N \<Longrightarrow> sc_x (coefficients duplicate_share ! i) = 1"
  by (simp_all add: duplicate_share_def)

lemma reconstructSk_duplicate_share:
  "reconstructSk duplicate_share duplicate_share = Inr (replicate N 0)"
proof -
  have "reconstruct_coeff duplicate_share duplicate_share i = Inr 0" if "i < N" for i
    using reconstruct_coeff_threshold_two[of duplicate_share i duplicate_share] that
    by (auto simp: duplicate_share_fields)
  then have "reconstructSk duplicate_share duplicate_share = Inr (map (\<lambda>i. 0) [0..<N])"
    unfolding reconstructSk_def by (intro mapE_all_Inr) simp
  then show ?thesis by (simp add: map_replicate_const)
qed

theorem reconstructSk_no_share_validation_witness:
  "(3::int) \<le> threshold (duplicate_share\<lparr>threshold := 3\<rparr>)
   \<and> reconstructSk (duplicate_share\<lparr>threshold := 3\<rparr>) duplicate_share = Inl TypeError
   \<and> threshold duplicate_share = 2 \<and> N \<le> length (coefficients duplicate_share)
   \<and> (\<exists>sk. reconstructSk duplicate_share duplicate_share = Inr sk \<and> sk ! 0 = 0)"
proof -
  have t3: "(3::int) \<le> threshold (duplicate_share\<lparr>threshold := 3\<rparr>)" by simp
  have t2: "threshold duplicate_share = 2" "N \<le> length (coefficients duplicate_share)"
    by (simp_all add: duplicate_share_fields)
  have e3: "reconstructSk (duplicate_share\<lparr>threshold := 3\<rparr>) duplicate_share = Inl TypeError"
    using reconstructSk_no_share_validation[of "duplicate_share\<lparr>threshold := 3\<rparr>" duplicate_share]
      t3 by simp
  obtain sk where sk: "reconstructSk duplicate_share duplicate_share = Inr sk"
    "\<forall>i<N. sc_x (coefficients duplicate_share ! i) = sc_x (coefficients duplicate_share ! i)
       \<longrightarrow> sk ! i = 0"
    using reconstructSk_no_share_validation[of duplicate_share duplicate_share] t2 by blast
  have "sk ! 0 = 0" using sk(2) N_pos by simp
  then show ?thesis using t3 t2 e3 sk(1) by simp
qed

theorem reconstructSk_duplicate_x_counterexample:
  "reconstructSk
     \<lparr>share_index = 1, threshold = 2, num_shares = 3,
      coefficients = replicate N \<lparr>sc_x = 1, sc_y = 5\<rparr>\<rparr>
     \<lparr>share_index = 1, threshold = 2, num_shares = 3,
      coefficients = replicate N \<lparr>sc_x = 1, sc_y = 5\<rparr>\<rparr>
   = Inr (replicate N 0)"
  using reconstructSk_duplicate_share unfolding duplicate_share_def .

section \<open>Normalised coefficients\<close>

definition normalized :: "int \<Rightarrow> int list \<Rightarrow> bool" where
  "normalized q xs \<longleftrightarrow> (\<forall>c \<in> set xs. 0 \<le> c \<and> c < q)"

lemma normalized_update:
  assumes "normalized q xs" "0 \<le> v" "v < q"
  shows "normalized q (xs[i := v])"
proof -
  have "set (xs[i := v]) \<subseteq> insert v (set xs)" by (rule set_update_subset_insert)
  then show ?thesis using assms unfolding normalized_def by blast
qed

lemma mul_mod_body_normalized:
  assumes "0 < q" "normalized q res" "mul_mod_body ai bj i j n q res = Inr res'"
  shows "normalized q res'"
proof (cases "bj = Some 0")
  case True
  then show ?thesis using assms by (simp add: mul_mod_body_def)
next
  case False
  then obtain x y where xy: "ai = Some x" "bj = Some y"
    using assms(3) by (auto simp: mul_mod_body_def split: option.splits)
  show ?thesis
  proof (cases "i + j < n")
    case True
    then have "res' = res[i + j := mod_norm (res ! (i + j) + x * y) q]"
      using assms(1,3) False xy by (simp add: mul_mod_body_def Let_def)
    then show ?thesis
      using normalized_update[OF assms(2)] mod_norm_range[OF assms(1)] by simp
  next
    case F: False
    then have "res' = res[i + j - n := mod_norm (res ! (i + j - n) - x * y) q]"
      using assms(1,3) False xy by (simp add: mul_mod_body_def Let_def)
    then show ?thesis
      using normalized_update[OF assms(2)] mod_norm_range[OF assms(1)] by simp
  qed
qed

lemma negacyclicMulModQ_normalized:
  assumes "0 < q" "negacyclicMulModQ a b n q = Inr res"
  shows "normalized q res"
proof (rule foldE_preserves[OF assms(2)[unfolded negacyclicMulModQ_def], where I = "normalized q"])
  show "normalized q (replicate n 0)"
    using assms(1) by (simp add: normalized_def)
next
  fix i s s'
  assume s: "normalized q s"
    and run: "(if nth_opt a i = Some 0 then Inr s
               else foldE (\<lambda>j. mul_mod_body (nth_opt a i) (nth_opt b j) i j n q) [0..<n] s) = Inr s'"
  show "normalized q s'"
  proof (cases "nth_opt a i = Some 0")
    case True
    then show ?thesis using s run by simp
  next
    case False
    then have "foldE (\<lambda>j. mul_mod_body (nth_opt a i) (nth_opt b j) i j n q) [0..<n] s = Inr s'"
      using run by simp
    then show ?thesis
      by (rule foldE_preserves[where I = "normalized q"])
         (use s mul_mod_body_normalized[OF assms(1)] in blast)+
  qed
qed

lemma normalized_map_mod: "0 < q \<Longrightarrow> normalized q (map (\<lambda>i. f i mod q) xs)"
  by (simp add: normalized_def)

lemma rlweEncrypt_normalized:
  assumes "rlweEncrypt pk rnd x y = Inr ct"
  shows "normalized RLWE_Q (c0Sparse ct) \<and> normalized RLWE_Q (c1 ct)"
proof -
  have key: "N \<le> length (pk_a pk)" "N \<le> length (pk_b pk)"
    using rlweEncryptWith_needs_full_key[OF assms[unfolded rlweEncrypt_noise]] by simp_all
  show ?thesis
    using assms unfolding rlweEncrypt_value[OF key]
    by (auto simp: normalized_map_mod RLWE_Q_pos)
qed

lemma reconstruct_coeff_normalized:
  assumes "reconstruct_coeff s1 s2 i = Inr v"
  shows "0 \<le> v \<and> v < RLWE_Q"
proof -
  from assms obtain sg where "v = mod_norm sg RLWE_Q"
    by (auto simp: reconstruct_coeff_def bindE_eq_Inr)
  then show ?thesis using mod_norm_range[OF RLWE_Q_pos] by simp
qed

lemma reconstructSk_normalized:
  assumes "reconstructSk s1 s2 = Inr sk"
  shows "normalized RLWE_Q sk"
proof -
  from mapE_eq_Inr[OF assms[unfolded reconstructSk_def]]
  have len: "length sk = N" and each: "\<And>i. i < N \<Longrightarrow> reconstruct_coeff s1 s2 i = Inr (sk ! i)"
    by simp_all
  show ?thesis
    unfolding normalized_def
  proof
    fix c assume "c \<in> set sk"
    then obtain i where "i < N" "c = sk ! i"
      using len by (auto simp: in_set_conv_nth)
    then show "0 \<le> c \<and> c < RLWE_Q"
      using each reconstruct_coeff_normalized by blast
  qed
qed

section \<open>A concrete run: the zero key, zero noise, zero message\<close>

definition zero_key :: RlwePk where
  "zero_key = \<lparr>pk_a = replicate N 0, pk_b = replicate N 0\<rparr>"

lemma ncoef_zero_poly: "k < n \<Longrightarrow> j < n \<Longrightarrow> ncoef (replicate n 0) n k j = 0"
  by (simp add: ncoef_def)

lemma nconv_zero_poly: "k < n \<Longrightarrow> nconv (replicate n 0) b n k = 0"
  by (simp add: nconv_def ncoef_zero_poly)

lemma smallNoise_3: "smallNoise 3 = 0"
  by (simp add: smallNoise_def)

lemma zero_noise:
  "noise_r (\<lambda>_. 3) = replicate N 0" "noise_e1 (\<lambda>_. 3) = replicate MSG_SLOTS 0"
  "noise_e2 (\<lambda>_. 3) = replicate N 0"
  by (simp_all add: noise_r_def noise_e1_def noise_e2_def smallNoise_3 map_replicate_const)

lemma encodeFieldToBytes_zero: "encodeFieldToBytes 0 n = replicate n 0"
  by (simp add: encodeFieldToBytes_def map_replicate_const)

lemma message_slots_zero: "message_slots 0 0 = replicate MSG_SLOTS 0"
  by (simp add: message_slots_def encodeFieldToBytes_zero MSG_SLOTS_def flip: replicate_add)

definition zero_ciphertext :: RlweEncryptResult where
  "zero_ciphertext =
     \<lparr>c0Sparse = replicate MSG_SLOTS 0, c1 = replicate N 0, rSigned = replicate N 0,
      e1Signed = replicate MSG_SLOTS 0, e2Signed = replicate N 0, msg = replicate MSG_SLOTS 0\<rparr>"

lemma rlweEncrypt_zero: "rlweEncrypt zero_key (\<lambda>_. 3) 0 0 = Inr zero_ciphertext"
proof -
  have key: "N \<le> length (pk_a zero_key)" "N \<le> length (pk_b zero_key)"
    by (simp_all add: zero_key_def)
  have i: "i < N" if "i < MSG_SLOTS" for i using that MSG_SLOTS_le_N by simp
  have c0: "map (\<lambda>i. (nconv (pk_b zero_key) (noise_r (\<lambda>_. 3)) N i + noise_e1 (\<lambda>_. 3) ! i
                  + DELTA * message_slots 0 0 ! i) mod RLWE_Q) [0..<MSG_SLOTS]
            = replicate MSG_SLOTS 0"
    by (rule nth_equalityI)
       (simp_all add: zero_key_def nconv_zero_poly i zero_noise message_slots_zero)
  have c1: "map (\<lambda>i. (nconv (pk_a zero_key) (noise_r (\<lambda>_. 3)) N i + noise_e2 (\<lambda>_. 3) ! i)
                  mod RLWE_Q) [0..<N]
            = replicate N 0"
    by (rule nth_equalityI) (simp_all add: zero_key_def nconv_zero_poly zero_noise)
  show ?thesis
    unfolding rlweEncrypt_value[OF key] c0 c1
    unfolding zero_noise message_slots_zero zero_ciphertext_def ..
qed

text \<open>
  C9: whenever \<open>negacyclicMulModQ\<close> (on any integer arrays and any length \<open>n\<close>, with
  modulus \<open>Q\<close>), \<open>rlweEncrypt\<close> or \<open>reconstructSk\<close> returns, every coefficient of the
  product, of \<open>c0Sparse\<close> and \<open>c1\<close>, and of the secret ring lies in \<open>[0, 167772161)\<close>.
\<close>

theorem ring_outputs_normalized:
  "(negacyclicMulModQ a b n RLWE_Q = Inr res \<longrightarrow> (\<forall>c \<in> set res. 0 \<le> c \<and> c < 167772161))
   \<and> (rlweEncrypt pk rnd x y = Inr ct \<longrightarrow>
         (\<forall>c \<in> set (c0Sparse ct) \<union> set (c1 ct). 0 \<le> c \<and> c < 167772161))
   \<and> (reconstructSk s1 s2 = Inr sk \<longrightarrow> (\<forall>c \<in> set sk. 0 \<le> c \<and> c < 167772161))"
proof (intro conjI impI)
  assume "negacyclicMulModQ a b n RLWE_Q = Inr res"
  then have "normalized RLWE_Q res"
    by (rule negacyclicMulModQ_normalized[OF RLWE_Q_pos])
  then show "\<forall>c \<in> set res. 0 \<le> c \<and> c < 167772161"
    by (simp add: normalized_def RLWE_Q_def)
next
  assume "rlweEncrypt pk rnd x y = Inr ct"
  then have "normalized RLWE_Q (c0Sparse ct) \<and> normalized RLWE_Q (c1 ct)"
    by (rule rlweEncrypt_normalized)
  then show "\<forall>c \<in> set (c0Sparse ct) \<union> set (c1 ct). 0 \<le> c \<and> c < 167772161"
    by (auto simp: normalized_def RLWE_Q_def)
next
  assume "reconstructSk s1 s2 = Inr sk"
  then have "normalized RLWE_Q sk"
    by (rule reconstructSk_normalized)
  then show "\<forall>c \<in> set sk. 0 \<le> c \<and> c < 167772161"
    by (simp add: normalized_def RLWE_Q_def)
qed

lemma small_product: "negacyclicMulModQ [1, 2] [3, 4] 2 RLWE_Q = Inr [167772156, 10]"
  by (simp add: negacyclicMulModQ_value RLWE_Q_pos nconv_def ncoef_def numeral_2_eq_2 RLWE_Q_def)

theorem ring_outputs_normalized_witness:
  "negacyclicMulModQ [1, 2] [3, 4] 2 RLWE_Q = Inr [167772156, 10]
   \<and> (0::int) \<le> 167772156 \<and> (167772156::int) < 167772161
   \<and> rlweEncrypt zero_key (\<lambda>_. 3) 0 0 = Inr zero_ciphertext
   \<and> reconstructSk duplicate_share duplicate_share = Inr (replicate N 0)"
  using ring_outputs_normalized[of "[1, 2]" "[3, 4]" 2 "[167772156, 10]" zero_key "\<lambda>_. 3" 0 0
      zero_ciphertext duplicate_share duplicate_share "replicate N 0"]
    small_product rlweEncrypt_zero reconstructSk_duplicate_share
  by simp

section \<open>Quotient witnesses\<close>

definition row_of :: "int list \<Rightarrow> nat \<Rightarrow> int list" where
  \<comment> \<open>the value of \<open>negacyclicMatrixRowModQ poly i N RLWE_Q\<close> for a full-length \<open>poly\<close>\<close>
  "row_of poly i = map (\<lambda>j. ncoef poly N i j mod RLWE_Q) [0..<N]"

lemma length_row_of [simp]: "length (row_of poly i) = N"
  by (simp add: row_of_def)

lemma row_of_run:
  "i < N \<Longrightarrow> N \<le> length poly \<Longrightarrow> negacyclicMatrixRowModQ poly i N RLWE_Q = Inr (row_of poly i)"
  by (simp add: row_of_def negacyclicMatrixRowModQ_value RLWE_Q_pos)

definition ip_of :: "int list \<Rightarrow> nat \<Rightarrow> int list \<Rightarrow> int" where
  "ip_of poly i r = (\<Sum>j<N. row_of poly i ! j * r ! j)"

lemma ip_of_run:
  "N \<le> length r \<Longrightarrow> innerProductInt (row_of poly i) r = Inr (ip_of poly i r)"
  by (simp add: innerProductInt_value ip_of_def)

lemma ip_of_mod: "ip_of poly i r mod RLWE_Q = nconv poly r N i mod RLWE_Q"
proof -
  have "ip_of poly i r = (\<Sum>j<N. (ncoef poly N i j mod RLWE_Q) * r ! j)"
    unfolding ip_of_def by (intro sum.cong refl) (simp add: row_of_def)
  then show ?thesis by (simp add: row_inner_product_mod')
qed

lemma quotient_k0_at_value:
  assumes "i < MSG_SLOTS" "N \<le> length (pk_b pk)" "N \<le> length r"
    "MSG_SLOTS \<le> length e1" "MSG_SLOTS \<le> length m" "MSG_SLOTS \<le> length c0"
  shows "quotient_k0_at pk c0 r e1 m i
         = Inr (bigint_div (ip_of (pk_b pk) i r + e1 ! i + DELTA * m ! i - c0 ! i) RLWE_Q)"
proof -
  have "i < N" using assms(1) MSG_SLOTS_le_N by simp
  then show ?thesis
    using assms by (simp add: quotient_k0_at_def row_of_run ip_of_run at_in_range)
qed

lemma quotient_k1_at_value:
  assumes "i < N" "N \<le> length (pk_a pk)" "N \<le> length r" "N \<le> length e2" "N \<le> length c1'"
  shows "quotient_k1_at pk c1' r e2 i
         = Inr (bigint_div (ip_of (pk_a pk) i r + e2 ! i - c1' ! i) RLWE_Q)"
  using assms by (simp add: quotient_k1_at_def row_of_run ip_of_run at_in_range)

lemma computeQuotients_value:
  assumes "N \<le> length (pk_a pk)" "N \<le> length (pk_b pk)" "N \<le> length r"
    "MSG_SLOTS \<le> length e1" "MSG_SLOTS \<le> length m" "MSG_SLOTS \<le> length c0"
    "N \<le> length e2" "N \<le> length c1'"
  shows "computeQuotients pk c0 c1' r e1 e2 m
         = Inr \<lparr>k0 = map (\<lambda>i. bigint_div (ip_of (pk_b pk) i r + e1 ! i + DELTA * m ! i - c0 ! i)
                                RLWE_Q) [0..<MSG_SLOTS],
                k1 = map (\<lambda>i. bigint_div (ip_of (pk_a pk) i r + e2 ! i - c1' ! i) RLWE_Q)
                       [0..<N]\<rparr>"
proof -
  have q0: "mapE (quotient_k0_at pk c0 r e1 m) [0..<MSG_SLOTS]
            = Inr (map (\<lambda>i. bigint_div (ip_of (pk_b pk) i r + e1 ! i + DELTA * m ! i - c0 ! i)
                                RLWE_Q) [0..<MSG_SLOTS])"
    by (rule mapE_all_Inr) (use assms in \<open>simp add: quotient_k0_at_value\<close>)
  have q1: "mapE (quotient_k1_at pk c1' r e2) [0..<N]
            = Inr (map (\<lambda>i. bigint_div (ip_of (pk_a pk) i r + e2 ! i - c1' ! i) RLWE_Q) [0..<N])"
    by (rule mapE_all_Inr) (use assms in \<open>simp add: quotient_k1_at_value\<close>)
  show ?thesis by (simp add: computeQuotients_def q0 q1)
qed

lemma bigint_div_of_congruent:
  assumes "q \<noteq> 0" "full mod q = c mod q"
  shows "bigint_div (full - c) q * q = full - c"
proof -
  have "(full - c) mod q = 0" using assms(2) by (simp add: mod_eq_dvd_iff mod_0_imp_dvd dvd_eq_mod_eq_0)
  then obtain k where k: "full - c = k * q"
    by (metis dvd_div_mult_self mod_0_imp_dvd)
  show ?thesis unfolding k by (simp add: bigint_div_exact[OF assms(1)])
qed

lemma k0_exact:
  "bigint_div (ip_of b i r + e + DELTA * mi - (nconv b r N i + e + DELTA * mi) mod RLWE_Q) RLWE_Q
     * RLWE_Q
   = ip_of b i r + e + DELTA * mi - (nconv b r N i + e + DELTA * mi) mod RLWE_Q"
proof (rule bigint_div_of_congruent)
  show "RLWE_Q \<noteq> 0" using RLWE_Q_pos by simp
  have "(ip_of b i r + (e + DELTA * mi)) mod RLWE_Q = (nconv b r N i + (e + DELTA * mi)) mod RLWE_Q"
    by (rule mod_add_cong) (simp_all add: ip_of_mod)
  then show "(ip_of b i r + e + DELTA * mi) mod RLWE_Q
             = (nconv b r N i + e + DELTA * mi) mod RLWE_Q mod RLWE_Q"
    by (simp add: add.assoc)
qed

lemma k1_exact:
  "bigint_div (ip_of a i r + e - (nconv a r N i + e) mod RLWE_Q) RLWE_Q * RLWE_Q
   = ip_of a i r + e - (nconv a r N i + e) mod RLWE_Q"
proof (rule bigint_div_of_congruent)
  show "RLWE_Q \<noteq> 0" using RLWE_Q_pos by simp
  have "(ip_of a i r + e) mod RLWE_Q = (nconv a r N i + e) mod RLWE_Q"
    by (rule mod_add_cong) (simp_all add: ip_of_mod)
  then show "(ip_of a i r + e) mod RLWE_Q = (nconv a r N i + e) mod RLWE_Q mod RLWE_Q"
    by simp
qed


lemma computeQuotients_on_encryption:
  assumes "rlweEncrypt pk rnd x y = Inr ct"
  shows "\<exists>qr. computeQuotients pk (c0Sparse ct) (c1 ct) (rSigned ct) (e1Signed ct)
                (e2Signed ct) (msg ct) = Inr qr
           \<and> length (k0 qr) = MSG_SLOTS \<and> length (k1 qr) = N
           \<and> (\<forall>i<MSG_SLOTS. \<exists>row ip.
                 negacyclicMatrixRowModQ (pk_b pk) i N RLWE_Q = Inr row
                 \<and> innerProductInt row (rSigned ct) = Inr ip
                 \<and> k0 qr ! i * RLWE_Q
                     = ip + e1Signed ct ! i + DELTA * msg ct ! i - c0Sparse ct ! i)
           \<and> (\<forall>i<N. \<exists>row ip.
                 negacyclicMatrixRowModQ (pk_a pk) i N RLWE_Q = Inr row
                 \<and> innerProductInt row (rSigned ct) = Inr ip
                 \<and> k1 qr ! i * RLWE_Q = ip + e2Signed ct ! i - c1 ct ! i)"
proof -
  have key: "N \<le> length (pk_a pk)" "N \<le> length (pk_b pk)"
    using rlweEncryptWith_needs_full_key[OF assms[unfolded rlweEncrypt_noise]] by simp_all
  let ?r = "noise_r rnd" and ?e1 = "noise_e1 rnd" and ?e2 = "noise_e2 rnd"
  let ?m = "message_slots x y"
  let ?c0 = "map (\<lambda>i. (nconv (pk_b pk) ?r N i + ?e1 ! i + DELTA * ?m ! i) mod RLWE_Q)
               [0..<MSG_SLOTS]"
  let ?c1 = "map (\<lambda>i. (nconv (pk_a pk) ?r N i + ?e2 ! i) mod RLWE_Q) [0..<N]"
  have ct: "c0Sparse ct = ?c0" "c1 ct = ?c1" "rSigned ct = ?r" "e1Signed ct = ?e1"
    "e2Signed ct = ?e2" "msg ct = ?m"
    using assms unfolding rlweEncrypt_value[OF key] by auto
  let ?k0 = "map (\<lambda>i. bigint_div (ip_of (pk_b pk) i ?r + ?e1 ! i + DELTA * ?m ! i - ?c0 ! i)
                       RLWE_Q) [0..<MSG_SLOTS]"
  let ?k1 = "map (\<lambda>i. bigint_div (ip_of (pk_a pk) i ?r + ?e2 ! i - ?c1 ! i) RLWE_Q) [0..<N]"
  have run: "computeQuotients pk ?c0 ?c1 ?r ?e1 ?e2 ?m = Inr \<lparr>k0 = ?k0, k1 = ?k1\<rparr>"
    by (rule computeQuotients_value) (simp_all add: key length_message_slots)
  have e0: "negacyclicMatrixRowModQ (pk_b pk) i N RLWE_Q = Inr (row_of (pk_b pk) i)
            \<and> innerProductInt (row_of (pk_b pk) i) ?r = Inr (ip_of (pk_b pk) i ?r)
            \<and> ?k0 ! i * RLWE_Q = ip_of (pk_b pk) i ?r + ?e1 ! i + DELTA * ?m ! i - ?c0 ! i"
    if "i < MSG_SLOTS" for i
  proof -
    have "i < N" using that MSG_SLOTS_le_N by simp
    then show ?thesis
      using that key by (simp add: row_of_run ip_of_run k0_exact)
  qed
  have e1: "negacyclicMatrixRowModQ (pk_a pk) i N RLWE_Q = Inr (row_of (pk_a pk) i)
            \<and> innerProductInt (row_of (pk_a pk) i) ?r = Inr (ip_of (pk_a pk) i ?r)
            \<and> ?k1 ! i * RLWE_Q = ip_of (pk_a pk) i ?r + ?e2 ! i - ?c1 ! i"
    if "i < N" for i
    using that key by (simp add: row_of_run ip_of_run k1_exact)
  show ?thesis
    unfolding ct
    apply (rule exI[of _ "\<lparr>k0 = ?k0, k1 = ?k1\<rparr>"])
    apply (intro conjI allI impI)
        apply (rule run)
       apply simp
      apply simp
     apply (simp only: QuotientResult.select_convs) 
     apply (blast dest: e0)
    apply (simp only: QuotientResult.select_convs) 
    apply (blast dest: e1)
    done
qed

lemma computeQuotients_truncates:
  assumes "N \<le> length (pk_a pk)" "N \<le> length (pk_b pk)" "N \<le> length r"
    "MSG_SLOTS \<le> length e1" "MSG_SLOTS \<le> length m" "MSG_SLOTS \<le> length c0"
    "N \<le> length e2" "N \<le> length c1'"
  shows "\<exists>qr. computeQuotients pk c0 c1' r e1 e2 m = Inr qr
           \<and> length (k0 qr) = MSG_SLOTS \<and> length (k1 qr) = N
           \<and> (\<forall>i<MSG_SLOTS. \<exists>row ip.
                 negacyclicMatrixRowModQ (pk_b pk) i N RLWE_Q = Inr row
                 \<and> innerProductInt row r = Inr ip
                 \<and> k0 qr ! i = bigint_div (ip + e1 ! i + DELTA * m ! i - c0 ! i) RLWE_Q)
           \<and> (\<forall>i<N. \<exists>row ip.
                 negacyclicMatrixRowModQ (pk_a pk) i N RLWE_Q = Inr row
                 \<and> innerProductInt row r = Inr ip
                 \<and> k1 qr ! i = bigint_div (ip + e2 ! i - c1' ! i) RLWE_Q)"
proof -
  let ?k0 = "map (\<lambda>i. bigint_div (ip_of (pk_b pk) i r + e1 ! i + DELTA * m ! i - c0 ! i) RLWE_Q)
               [0..<MSG_SLOTS]"
  let ?k1 = "map (\<lambda>i. bigint_div (ip_of (pk_a pk) i r + e2 ! i - c1' ! i) RLWE_Q) [0..<N]"
  have run: "computeQuotients pk c0 c1' r e1 e2 m = Inr \<lparr>k0 = ?k0, k1 = ?k1\<rparr>"
    using assms by (rule computeQuotients_value)
  have e0: "negacyclicMatrixRowModQ (pk_b pk) i N RLWE_Q = Inr (row_of (pk_b pk) i)
            \<and> innerProductInt (row_of (pk_b pk) i) r = Inr (ip_of (pk_b pk) i r)
            \<and> ?k0 ! i = bigint_div (ip_of (pk_b pk) i r + e1 ! i + DELTA * m ! i - c0 ! i) RLWE_Q"
    if "i < MSG_SLOTS" for i
  proof -
    have "i < N" using that MSG_SLOTS_le_N by simp
    then show ?thesis
      using that assms(2,3) by (simp add: row_of_run ip_of_run)
  qed
  have e1: "negacyclicMatrixRowModQ (pk_a pk) i N RLWE_Q = Inr (row_of (pk_a pk) i)
            \<and> innerProductInt (row_of (pk_a pk) i) r = Inr (ip_of (pk_a pk) i r)
            \<and> ?k1 ! i = bigint_div (ip_of (pk_a pk) i r + e2 ! i - c1' ! i) RLWE_Q"
    if "i < N" for i
    using that assms(1,3) by (simp add: row_of_run ip_of_run)
  show ?thesis
    apply (rule exI[of _ "\<lparr>k0 = ?k0, k1 = ?k1\<rparr>"])
    apply (intro conjI allI impI)
        apply (rule run)
       apply simp
      apply simp
     apply (simp only: QuotientResult.select_convs)
     apply (blast dest: e0)
    apply (simp only: QuotientResult.select_convs)
    apply (blast dest: e1)
    done
qed

text \<open>
  C2 (as the code behaves): for every ciphertext produced by \<open>rlweEncrypt\<close>,
  \<open>computeQuotients\<close> on that ciphertext, noise and message returns 64 quotients \<open>k0\<close> and
  1024 quotients \<open>k1\<close> with \<open>k0[i] * Q = full0[i] - c0[i]\<close> and \<open>k1[i] * Q = full1[i] - c1[i]\<close>
  exactly, where \<open>full0[i]\<close> and \<open>full1[i]\<close> are the integer inner products of the matrix
  rows with \<open>r\<close> plus the noise (plus \<open>DELTA * msg[i]\<close> for \<open>full0\<close>). The function makes no
  remainder check: on any arrays that are long enough it returns 64 and 1024 quotients, each the
  quotient of \<open>full0[i] - c0[i]\<close> (of \<open>full1[i] - c1[i]\<close>) by \<open>Q\<close> rounded towards zero,
  whatever the remainder is.
\<close>

theorem computeQuotients_exact_on_encryptions:
  "(rlweEncrypt pk rnd x y = Inr ct \<longrightarrow>
      (\<exists>qr. computeQuotients pk (c0Sparse ct) (c1 ct) (rSigned ct) (e1Signed ct)
                (e2Signed ct) (msg ct) = Inr qr
           \<and> length (k0 qr) = 64 \<and> length (k1 qr) = 1024
           \<and> (\<forall>i<64. \<exists>row ip.
                 negacyclicMatrixRowModQ (pk_b pk) i N RLWE_Q = Inr row
                 \<and> innerProductInt row (rSigned ct) = Inr ip
                 \<and> k0 qr ! i * RLWE_Q
                     = ip + e1Signed ct ! i + DELTA * msg ct ! i - c0Sparse ct ! i)
           \<and> (\<forall>i<1024. \<exists>row ip.
                 negacyclicMatrixRowModQ (pk_a pk) i N RLWE_Q = Inr row
                 \<and> innerProductInt row (rSigned ct) = Inr ip
                 \<and> k1 qr ! i * RLWE_Q = ip + e2Signed ct ! i - c1 ct ! i)))
   \<and> (N \<le> length (pk_a pk') \<and> N \<le> length (pk_b pk') \<and> N \<le> length r
        \<and> MSG_SLOTS \<le> length e1 \<and> MSG_SLOTS \<le> length m \<and> MSG_SLOTS \<le> length c0
        \<and> N \<le> length e2 \<and> N \<le> length c1' \<longrightarrow>
      (\<exists>qr. computeQuotients pk' c0 c1' r e1 e2 m = Inr qr
           \<and> length (k0 qr) = 64 \<and> length (k1 qr) = 1024
           \<and> (\<forall>i<64. \<exists>row ip.
                 negacyclicMatrixRowModQ (pk_b pk') i N RLWE_Q = Inr row
                 \<and> innerProductInt row r = Inr ip
                 \<and> k0 qr ! i = bigint_div (ip + e1 ! i + DELTA * m ! i - c0 ! i) RLWE_Q)
           \<and> (\<forall>i<1024. \<exists>row ip.
                 negacyclicMatrixRowModQ (pk_a pk') i N RLWE_Q = Inr row
                 \<and> innerProductInt row r = Inr ip
                 \<and> k1 qr ! i = bigint_div (ip + e2 ! i - c1' ! i) RLWE_Q)))"
proof (intro conjI impI)
  assume "rlweEncrypt pk rnd x y = Inr ct"
  from computeQuotients_on_encryption[OF this]
  show "\<exists>qr. computeQuotients pk (c0Sparse ct) (c1 ct) (rSigned ct) (e1Signed ct)
                (e2Signed ct) (msg ct) = Inr qr
           \<and> length (k0 qr) = 64 \<and> length (k1 qr) = 1024
           \<and> (\<forall>i<64. \<exists>row ip.
                 negacyclicMatrixRowModQ (pk_b pk) i N RLWE_Q = Inr row
                 \<and> innerProductInt row (rSigned ct) = Inr ip
                 \<and> k0 qr ! i * RLWE_Q
                     = ip + e1Signed ct ! i + DELTA * msg ct ! i - c0Sparse ct ! i)
           \<and> (\<forall>i<1024. \<exists>row ip.
                 negacyclicMatrixRowModQ (pk_a pk) i N RLWE_Q = Inr row
                 \<and> innerProductInt row (rSigned ct) = Inr ip
                 \<and> k1 qr ! i * RLWE_Q = ip + e2Signed ct ! i - c1 ct ! i)"
    by (simp only: MSG_SLOTS_def flip: N_def)
next
  assume a: "N \<le> length (pk_a pk') \<and> N \<le> length (pk_b pk') \<and> N \<le> length r
        \<and> MSG_SLOTS \<le> length e1 \<and> MSG_SLOTS \<le> length m \<and> MSG_SLOTS \<le> length c0
        \<and> N \<le> length e2 \<and> N \<le> length c1'"
  have "\<exists>qr. computeQuotients pk' c0 c1' r e1 e2 m = Inr qr
           \<and> length (k0 qr) = MSG_SLOTS \<and> length (k1 qr) = N
           \<and> (\<forall>i<MSG_SLOTS. \<exists>row ip.
                 negacyclicMatrixRowModQ (pk_b pk') i N RLWE_Q = Inr row
                 \<and> innerProductInt row r = Inr ip
                 \<and> k0 qr ! i = bigint_div (ip + e1 ! i + DELTA * m ! i - c0 ! i) RLWE_Q)
           \<and> (\<forall>i<N. \<exists>row ip.
                 negacyclicMatrixRowModQ (pk_a pk') i N RLWE_Q = Inr row
                 \<and> innerProductInt row r = Inr ip
                 \<and> k1 qr ! i = bigint_div (ip + e2 ! i - c1' ! i) RLWE_Q)"
    by (rule computeQuotients_truncates) (use a in simp_all)
  then show "\<exists>qr. computeQuotients pk' c0 c1' r e1 e2 m = Inr qr
           \<and> length (k0 qr) = 64 \<and> length (k1 qr) = 1024
           \<and> (\<forall>i<64. \<exists>row ip.
                 negacyclicMatrixRowModQ (pk_b pk') i N RLWE_Q = Inr row
                 \<and> innerProductInt row r = Inr ip
                 \<and> k0 qr ! i = bigint_div (ip + e1 ! i + DELTA * m ! i - c0 ! i) RLWE_Q)
           \<and> (\<forall>i<1024. \<exists>row ip.
                 negacyclicMatrixRowModQ (pk_a pk') i N RLWE_Q = Inr row
                 \<and> innerProductInt row r = Inr ip
                 \<and> k1 qr ! i = bigint_div (ip + e2 ! i - c1' ! i) RLWE_Q)"
    by (simp only: MSG_SLOTS_def flip: N_def)
qed


lemma row_of_zero_poly: "i < N \<Longrightarrow> row_of (replicate N 0) i = replicate N 0"
  by (intro nth_equalityI) (simp_all add: row_of_def ncoef_zero_poly)

lemma ip_of_zero_poly: "i < N \<Longrightarrow> ip_of (replicate N 0) i r = 0"
  by (simp add: ip_of_def row_of_zero_poly)

lemma bigint_div_small: "bigint_div (- 1) RLWE_Q = 0" "bigint_div 0 RLWE_Q = 0"
  by (simp_all add: bigint_div_def RLWE_Q_def)

lemma computeQuotients_zero_key:
  assumes "c = 0 \<or> c = 1"
  shows "computeQuotients zero_key (replicate MSG_SLOTS c) (replicate N 0) (replicate N 0)
           (replicate MSG_SLOTS 0) (replicate N 0) (replicate MSG_SLOTS 0)
         = Inr \<lparr>k0 = replicate MSG_SLOTS 0, k1 = replicate N 0\<rparr>"
proof -
  have i: "i < N" if "i < MSG_SLOTS" for i using that MSG_SLOTS_le_N by simp
  have q0: "map (\<lambda>i. bigint_div (ip_of (pk_b zero_key) i (replicate N 0) + replicate MSG_SLOTS 0 ! i
                   + DELTA * replicate MSG_SLOTS 0 ! i - replicate MSG_SLOTS c ! i) RLWE_Q)
              [0..<MSG_SLOTS] = replicate MSG_SLOTS 0"
    using assms
    by (intro nth_equalityI) (auto simp: zero_key_def ip_of_zero_poly i bigint_div_small)
  have q1: "map (\<lambda>i. bigint_div (ip_of (pk_a zero_key) i (replicate N 0) + replicate N 0 ! i
                   - replicate N 0 ! i) RLWE_Q) [0..<N] = replicate N 0"
    by (intro nth_equalityI) (simp_all add: zero_key_def ip_of_zero_poly bigint_div_small)
  have "computeQuotients zero_key (replicate MSG_SLOTS c) (replicate N 0) (replicate N 0)
           (replicate MSG_SLOTS 0) (replicate N 0) (replicate MSG_SLOTS 0)
        = Inr \<lparr>k0 = map (\<lambda>i. bigint_div (ip_of (pk_b zero_key) i (replicate N 0)
                   + replicate MSG_SLOTS 0 ! i
                   + DELTA * replicate MSG_SLOTS 0 ! i - replicate MSG_SLOTS c ! i) RLWE_Q)
                     [0..<MSG_SLOTS],
               k1 = map (\<lambda>i. bigint_div (ip_of (pk_a zero_key) i (replicate N 0) + replicate N 0 ! i
                   - replicate N 0 ! i) RLWE_Q) [0..<N]\<rparr>"
    by (rule computeQuotients_value) (simp_all add: zero_key_def)
  then show ?thesis unfolding q0 q1 .
qed

definition ones_key :: RlwePk where
  "ones_key = \<lparr>pk_a = replicate N 1, pk_b = replicate N 2\<rparr>"

theorem computeQuotients_exact_on_encryptions_witness:
  "\<exists>ct. rlweEncrypt ones_key (\<lambda>_. 5) 1 2 = Inr ct
     \<and> (\<exists>qr. computeQuotients ones_key (c0Sparse ct) (c1 ct) (rSigned ct) (e1Signed ct)
               (e2Signed ct) (msg ct) = Inr qr
           \<and> length (k0 qr) = 64 \<and> length (k1 qr) = 1024
           \<and> (\<exists>row ip.
                 negacyclicMatrixRowModQ (pk_b ones_key) 0 N RLWE_Q = Inr row
                 \<and> innerProductInt row (rSigned ct) = Inr ip
                 \<and> k0 qr ! 0 * RLWE_Q
                     = ip + e1Signed ct ! 0 + DELTA * msg ct ! 0 - c0Sparse ct ! 0))
     \<and> (\<exists>qr. computeQuotients ones_key (replicate MSG_SLOTS 1) (replicate N 7) (replicate N 2)
               (replicate MSG_SLOTS 3) (replicate N (- 1)) (replicate MSG_SLOTS 9) = Inr qr
           \<and> length (k0 qr) = 64 \<and> length (k1 qr) = 1024
           \<and> (\<exists>row ip.
                 negacyclicMatrixRowModQ (pk_b ones_key) 0 N RLWE_Q = Inr row
                 \<and> innerProductInt row (replicate N 2) = Inr ip
                 \<and> k0 qr ! 0 = bigint_div (ip + replicate MSG_SLOTS 3 ! 0
                       + DELTA * replicate MSG_SLOTS 9 ! 0 - replicate MSG_SLOTS 1 ! 0) RLWE_Q))"
proof -
  have len: "N \<le> length (pk_a ones_key)" "N \<le> length (pk_b ones_key)"
    by (simp_all add: ones_key_def)
  obtain ct where enc: "rlweEncrypt ones_key (\<lambda>_. 5) 1 2 = Inr ct"
    using rlweEncrypt_value[OF len] by blast
  note inst = computeQuotients_exact_on_encryptions[of ones_key "\<lambda>_. 5" 1 2 ct
      ones_key "replicate N 2" "replicate MSG_SLOTS 3" "replicate MSG_SLOTS 9"
      "replicate MSG_SLOTS 1" "replicate N (- 1)" "replicate N 7"]
  have z: "(0::nat) < 64" by simp
  from inst enc obtain qr where a:
    "computeQuotients ones_key (c0Sparse ct) (c1 ct) (rSigned ct) (e1Signed ct)
               (e2Signed ct) (msg ct) = Inr qr"
    "length (k0 qr) = 64" "length (k1 qr) = 1024"
    "\<forall>i<64. \<exists>row ip.
                 negacyclicMatrixRowModQ (pk_b ones_key) i N RLWE_Q = Inr row
                 \<and> innerProductInt row (rSigned ct) = Inr ip
                 \<and> k0 qr ! i * RLWE_Q
                     = ip + e1Signed ct ! i + DELTA * msg ct ! i - c0Sparse ct ! i"
    by blast
  have lens: "N \<le> length (pk_a ones_key) \<and> N \<le> length (pk_b ones_key)
        \<and> N \<le> length (replicate N (2::int))
        \<and> MSG_SLOTS \<le> length (replicate MSG_SLOTS (3::int))
        \<and> MSG_SLOTS \<le> length (replicate MSG_SLOTS (9::int))
        \<and> MSG_SLOTS \<le> length (replicate MSG_SLOTS (1::int))
        \<and> N \<le> length (replicate N (- 1::int)) \<and> N \<le> length (replicate N (7::int))"
    using len by simp
  from inst lens obtain qr' where b:
    "computeQuotients ones_key (replicate MSG_SLOTS 1) (replicate N 7) (replicate N 2)
               (replicate MSG_SLOTS 3) (replicate N (- 1)) (replicate MSG_SLOTS 9) = Inr qr'"
    "length (k0 qr') = 64" "length (k1 qr') = 1024"
    "\<forall>i<64. \<exists>row ip.
                 negacyclicMatrixRowModQ (pk_b ones_key) i N RLWE_Q = Inr row
                 \<and> innerProductInt row (replicate N 2) = Inr ip
                 \<and> k0 qr' ! i = bigint_div (ip + replicate MSG_SLOTS 3 ! i
                       + DELTA * replicate MSG_SLOTS 9 ! i - replicate MSG_SLOTS 1 ! i) RLWE_Q"
    by blast
  show ?thesis
    apply (rule exI[of _ ct])
    apply (intro conjI)
      apply (rule enc)
     apply (rule exI[of _ qr])
     apply (intro conjI a(1,2,3))
     apply (rule a(4)[rule_format, OF z])
    apply (rule exI[of _ qr'])
    apply (intro conjI b(1,2,3))
    apply (rule b(4)[rule_format, OF z])
    done
qed


theorem computeQuotients_nonzero_remainder_counterexample:
  "computeQuotients \<lparr>pk_a = replicate N 0, pk_b = replicate N 0\<rparr>
     (replicate MSG_SLOTS 1) (replicate N 0) (replicate N 0)
     (replicate MSG_SLOTS 0) (replicate N 0) (replicate MSG_SLOTS 0)
   = Inr \<lparr>k0 = replicate MSG_SLOTS 0, k1 = replicate N 0\<rparr>
   \<and> negacyclicMatrixRowModQ (replicate N 0) 0 N RLWE_Q = Inr (replicate N 0)
   \<and> innerProductInt (replicate N 0) (replicate N 0) = Inr 0
   \<and> bigint_rem (0 + 0 + DELTA * 0 - 1) RLWE_Q = - 1
   \<and> (0::int) * RLWE_Q \<noteq> 0 + 0 + DELTA * 0 - 1"
proof -
  have "computeQuotients zero_key
     (replicate MSG_SLOTS 1) (replicate N 0) (replicate N 0)
     (replicate MSG_SLOTS 0) (replicate N 0) (replicate MSG_SLOTS 0)
   = Inr \<lparr>k0 = replicate MSG_SLOTS 0, k1 = replicate N 0\<rparr>"
    by (rule computeQuotients_zero_key) simp
  moreover have "negacyclicMatrixRowModQ (replicate N 0) 0 N RLWE_Q = Inr (replicate N 0)"
    using row_of_run[of 0 "replicate N 0"] row_of_zero_poly[of 0] N_pos by simp
  moreover have "innerProductInt (replicate N 0) (replicate N 0) = Inr 0"
    using ip_of_run[of "replicate N 0" "replicate N 0" 0] N_pos
    by (simp add: row_of_zero_poly ip_of_zero_poly)
  moreover have "bigint_rem (0 + 0 + DELTA * 0 - 1) RLWE_Q = - 1"
    by (simp add: bigint_rem_def RLWE_Q_def)
  ultimately show ?thesis by (simp add: zero_key_def)
qed

section \<open>The negacyclic ring: commutativity and associativity\<close>

text \<open>
  \<open>nx n g\<close> extends the coefficients \<open>g 0, \<dots>, g (n - 1)\<close> to every integer index with
  \<open>X^n = -1\<close>; \<open>cv n f g\<close> is the product of \<open>f\<close> and \<open>g\<close> at any integer index.
\<close>

definition nx :: "nat \<Rightarrow> (nat \<Rightarrow> int) \<Rightarrow> int \<Rightarrow> int" where
  "nx n g z = (if even (z div int n) then g (nat (z mod int n)) else - g (nat (z mod int n)))"

definition cv :: "nat \<Rightarrow> (nat \<Rightarrow> int) \<Rightarrow> (nat \<Rightarrow> int) \<Rightarrow> int \<Rightarrow> int" where
  "cv n f g k = (\<Sum>i<n. f i * nx n g (k - int i))"

lemma nx_shift:
  assumes "0 < n"
  shows "nx n g (z + int n) = - nx n g z"
proof -
  have "int n \<noteq> 0" using assms by simp
  then have d: "(z + int n) div int n = z div int n + 1" by (rule div_add_self2)
  have m: "(z + int n) mod int n = z mod int n" by simp
  show ?thesis unfolding nx_def d m by simp
qed

lemma nx_unshift:
  assumes "0 < n"
  shows "nx n g (z - int n) = - nx n g z"
  using nx_shift[OF assms, of g "z - int n"] by simp

lemma nx_nat: "i < n \<Longrightarrow> nx n g (int i) = g i"
  by (simp add: nx_def)

lemma nx_cong:
  assumes "0 < n" "\<And>i. i < n \<Longrightarrow> g i = g' i"
  shows "nx n g z = nx n g' z"
proof -
  have "0 \<le> z mod int n" "z mod int n < int n" using assms(1) by simp_all
  then have "nat (z mod int n) < n" by linarith
  then show ?thesis using assms(2) by (simp add: nx_def)
qed

lemma cv_shift:
  assumes "0 < n"
  shows "cv n f g (k + int n) = - cv n f g k"
proof -
  have "nx n g (k + int n - int i) = - nx n g (k - int i)" for i
    using nx_shift[OF assms, of g "k - int i"] by (simp add: algebra_simps)
  then show ?thesis by (simp add: cv_def sum_negf)
qed

definition antiperiodic :: "nat \<Rightarrow> (int \<Rightarrow> int) \<Rightarrow> bool" where
  "antiperiodic n h \<longleftrightarrow> (\<forall>z. h (z + int n) = - h z)"

definition periodic :: "nat \<Rightarrow> (int \<Rightarrow> int) \<Rightarrow> bool" where
  "periodic n F \<longleftrightarrow> (\<forall>z. F (z + int n) = F z)"

lemma antiperiodic_nx_ext: "0 < n \<Longrightarrow> antiperiodic n (nx n g)"
  by (simp add: antiperiodic_def nx_shift)

lemma antiperiodic_cv: "0 < n \<Longrightarrow> antiperiodic n (cv n f g)"
  by (simp add: antiperiodic_def cv_shift)

lemma antiperiodic_steps:
  assumes "antiperiodic n h"
  shows "h (z + int n * int t) = (if even t then h z else - h z)"
proof (induction t)
  case 0
  then show ?case by simp
next
  case (Suc t)
  have "h (z + int n * int (Suc t)) = h ((z + int n * int t) + int n)"
    by (simp add: algebra_simps)
  also have "\<dots> = - h (z + int n * int t)"
    using assms by (simp add: antiperiodic_def)
  finally show ?case using Suc by simp
qed

lemma antiperiodic_steps_back:
  assumes "antiperiodic n h"
  shows "h (z - int n * int t) = (if even t then h z else - h z)"
proof -
  have "h ((z - int n * int t) + int n * int t) = (if even t then h (z - int n * int t)
          else - h (z - int n * int t))"
    by (rule antiperiodic_steps[OF assms])
  then show ?thesis by (simp split: if_splits)
qed

lemma int_sign_cases:
  fixes c :: int
  obtains t where "c = int t" | t where "c = - int t"
proof (cases "0 \<le> c")
  case True
  then have "c = int (nat c)" by simp
  then show ?thesis by (rule that(1))
next
  case False
  then have "c = - int (nat (- c))" by simp
  then show ?thesis by (rule that(2))
qed

lemma antiperiodic_nx:
  assumes "0 < n" "antiperiodic n h"
  shows "nx n (\<lambda>i. h (int i)) z = h z"
proof -
  define q where "q = z div int n"
  define r where "r = z mod int n"
  have r: "0 \<le> r" "r < int n" using assms(1) by (simp_all add: r_def)
  have z: "z = r + int n * q" by (simp add: q_def r_def)
  have hz: "h z = (if even q then h r else - h r)"
  proof (cases q rule: int_sign_cases)
    case (1 t)
    show ?thesis unfolding z 1 using antiperiodic_steps[OF assms(2), of r t] by simp
  next
    case (2 t)
    have "h (r - int n * int t) = (if even t then h r else - h r)"
      by (rule antiperiodic_steps_back[OF assms(2)])
    then show ?thesis unfolding z 2 by simp
  qed
  have "nx n (\<lambda>i. h (int i)) z = (if even q then h r else - h r)"
    using r by (simp add: nx_def q_def r_def)
  then show ?thesis using hz by simp
qed

lemma cv_nx:
  assumes "0 < n"
  shows "nx n (\<lambda>i. cv n f g (int i)) z = cv n f g z"
  by (rule antiperiodic_nx[OF assms antiperiodic_cv[OF assms]])

lemma periodic_shifted: "periodic n F \<Longrightarrow> periodic n (\<lambda>z. F (z + c))"
proof -
  assume p: "periodic n F"
  have "F (z + int n + c) = F (z + c)" for z
  proof -
    have "F (z + int n + c) = F ((z + c) + int n)" by (simp add: algebra_simps)
    then show ?thesis using p by (simp add: periodic_def)
  qed
  then show ?thesis by (simp add: periodic_def)
qed

lemma periodic_sum_shift_one:
  assumes "periodic n F"
  shows "(\<Sum>i<n. F (int i + 1)) = (\<Sum>i<n. F (int i))"
proof -
  have "(\<Sum>i<Suc n. F (int i)) = F 0 + (\<Sum>i<n. F (int (Suc i)))"
    using sum.lessThan_Suc_shift[of "\<lambda>i. F (int i)" n] by simp
  moreover have "(\<Sum>i<Suc n. F (int i)) = (\<Sum>i<n. F (int i)) + F (int n)" by simp
  moreover have "F (int n) = F 0" using assms unfolding periodic_def by (metis add_0)
  moreover have "(\<Sum>i<n. F (int (Suc i))) = (\<Sum>i<n. F (int i + 1))"
    by (intro sum.cong refl) (simp add: add.commute)
  ultimately show ?thesis by simp
qed

lemma periodic_sum_shift_nat:
  assumes "periodic n F"
  shows "(\<Sum>i<n. F (int i + int c)) = (\<Sum>i<n. F (int i))"
proof (induction c)
  case 0
  then show ?case by simp
next
  case (Suc c)
  have "(\<Sum>i<n. F (int i + int (Suc c))) = (\<Sum>i<n. (\<lambda>z. F (z + int c)) (int i + 1))"
    by (intro sum.cong refl) (simp add: algebra_simps)
  also have "\<dots> = (\<Sum>i<n. (\<lambda>z. F (z + int c)) (int i))"
    by (rule periodic_sum_shift_one[OF periodic_shifted[OF assms]])
  finally show ?case using Suc by simp
qed

lemma periodic_sum_shift:
  assumes "periodic n F"
  shows "(\<Sum>i<n. F (int i + c)) = (\<Sum>i<n. F (int i))"
proof (cases c rule: int_sign_cases)
  case (1 t)
  then show ?thesis using periodic_sum_shift_nat[OF assms] by simp
next
  case (2 t)
  have "(\<Sum>i<n. (\<lambda>z. F (z + c)) (int i + int t)) = (\<Sum>i<n. (\<lambda>z. F (z + c)) (int i))"
    by (rule periodic_sum_shift_nat[OF periodic_shifted[OF assms]])
  then show ?thesis by (simp add: 2)
qed

lemma periodic_product:
  assumes "antiperiodic n g" "antiperiodic n h"
  shows "periodic n (\<lambda>z. g z * h (k - z))"
proof -
  have "g (z + int n) * h (k - (z + int n)) = g z * h (k - z)" for z
  proof -
    have "h ((k - (z + int n)) + int n) = - h (k - (z + int n))"
      using assms(2) by (simp only: antiperiodic_def)
    then have "h (k - (z + int n)) = - h (k - z)" by (simp add: algebra_simps)
    moreover have "g (z + int n) = - g z" using assms(1) by (simp add: antiperiodic_def)
    ultimately show ?thesis by simp
  qed
  then show ?thesis by (simp add: periodic_def)
qed

lemma cv_as_extended_sum:
  "cv n f g k = (\<Sum>i<n. nx n f (int i) * nx n g (k - int i))"
  unfolding cv_def by (intro sum.cong refl) (simp add: nx_nat)

lemma cv_commute:
  assumes "0 < n"
  shows "cv n f g k = cv n g f k"
proof -
  let ?G = "\<lambda>z. nx n g z * nx n f (k - z)"
  have per: "periodic n ?G"
    by (rule periodic_product) (simp_all add: antiperiodic_nx_ext assms)
  have "cv n f g k = (\<Sum>i<n. nx n f (int i) * nx n g (k - int i))"
    by (rule cv_as_extended_sum)
  also have "\<dots> = (\<Sum>i<n. nx n f (int (n - Suc i)) * nx n g (k - int (n - Suc i)))"
    by (rule sum.nat_diff_reindex[symmetric])
  also have "\<dots> = (\<Sum>i<n. ?G (int i + (k - int n + 1)))"
    by (intro sum.cong refl) (simp add: algebra_simps of_nat_diff)
  also have "\<dots> = (\<Sum>i<n. ?G (int i))"
    by (rule periodic_sum_shift[OF per])
  also have "\<dots> = cv n g f k"
    by (simp add: cv_as_extended_sum)
  finally show ?thesis .
qed

lemma cv_assoc:
  assumes "0 < n"
  shows "cv n (\<lambda>m. cv n f g (int m)) h k = cv n f (\<lambda>j. cv n g h (int j)) k"
proof -
  have inner: "(\<Sum>m<n. nx n g (int m - int i) * nx n h (k - int m))
               = cv n g h (k - int i)" for i
  proof -
    let ?F = "\<lambda>z. nx n g z * nx n h (k - int i - z)"
    have per: "periodic n ?F"
      by (rule periodic_product) (simp_all add: antiperiodic_nx_ext assms)
    have "(\<Sum>m<n. nx n g (int m - int i) * nx n h (k - int m))
          = (\<Sum>m<n. ?F (int m + (- int i)))"
      by (intro sum.cong refl) (simp add: algebra_simps)
    also have "\<dots> = (\<Sum>m<n. ?F (int m))"
      by (rule periodic_sum_shift[OF per])
    also have "\<dots> = cv n g h (k - int i)"
      by (simp add: cv_as_extended_sum)
    finally show ?thesis .
  qed
  have "cv n (\<lambda>m. cv n f g (int m)) h k
        = (\<Sum>m<n. (\<Sum>i<n. f i * nx n g (int m - int i)) * nx n h (k - int m))"
    by (simp add: cv_def)
  also have "\<dots> = (\<Sum>m<n. \<Sum>i<n. f i * (nx n g (int m - int i) * nx n h (k - int m)))"
    by (simp add: sum_distrib_right mult.assoc)
  also have "\<dots> = (\<Sum>i<n. \<Sum>m<n. f i * (nx n g (int m - int i) * nx n h (k - int m)))"
    by (rule sum.swap)
  also have "\<dots> = (\<Sum>i<n. f i * cv n g h (k - int i))"
    by (simp add: sum_distrib_left[symmetric] inner)
  also have "\<dots> = (\<Sum>i<n. f i * nx n (\<lambda>j. cv n g h (int j)) (k - int i))"
    by (simp add: cv_nx[OF assms])
  finally show ?thesis by (simp add: cv_def)
qed

section \<open>The list-level convolution in the ring\<close>

lemma ncoef_nx:
  assumes "k < n" "j < n"
  shows "ncoef a n k j = nx n (\<lambda>i. a ! i) (int k - int j)"
proof (cases "j \<le> k")
  case True
  then have e: "int k - int j = int (k - j)" by simp
  have "k - j < n" using assms by simp
  then have "nx n (\<lambda>i. a ! i) (int (k - j)) = a ! (k - j)" by (rule nx_nat)
  then show ?thesis unfolding e using True by (simp add: ncoef_def)
next
  case False
  have n: "0 < n" using assms by simp
  have e: "int k - int j + int n = int (k + n - j)" using False assms by simp
  have "k + n - j < n" using False assms by simp
  then have "nx n (\<lambda>i. a ! i) (int (k + n - j)) = a ! (k + n - j)" by (rule nx_nat)
  then have "nx n (\<lambda>i. a ! i) (int k - int j + int n) = a ! (k + n - j)"
    unfolding e .
  then have "nx n (\<lambda>i. a ! i) (int k - int j) = - (a ! (k + n - j))"
    using nx_shift[OF n, of "\<lambda>i. a ! i" "int k - int j"] by simp
  then show ?thesis using False by (simp add: ncoef_def)
qed

lemma nconv_cv:
  assumes "k < n"
  shows "nconv a b n k = cv n (\<lambda>i. a ! i) (\<lambda>j. b ! j) (int k)"
proof -
  have n: "0 < n" using assms by simp
  have "nconv a b n k = (\<Sum>j<n. b ! j * nx n (\<lambda>i. a ! i) (int k - int j))"
    unfolding nconv_def by (intro sum.cong refl) (simp add: ncoef_nx assms mult.commute)
  also have "\<dots> = cv n (\<lambda>j. b ! j) (\<lambda>i. a ! i) (int k)" by (simp add: cv_def)
  finally show ?thesis by (simp add: cv_commute[OF n])
qed

lemma cv_cong:
  assumes "0 < n" "\<And>i. i < n \<Longrightarrow> f i = f' i" "\<And>i. i < n \<Longrightarrow> g i = g' i"
  shows "cv n f g k = cv n f' g' k"
  unfolding cv_def
  by (intro sum.cong refl) (simp add: assms(2) nx_cong[OF assms(1), of g g'] assms(3))

definition nprod :: "int list \<Rightarrow> int list \<Rightarrow> nat \<Rightarrow> int list" where
  \<comment> \<open>the exact product in \<open>Z[X]/(X^n + 1)\<close>, as a list\<close>
  "nprod a b n = map (\<lambda>k. nconv a b n k) [0..<n]"

lemma nprod_nth: "k < n \<Longrightarrow> nprod a b n ! k = nconv a b n k"
  by (simp add: nprod_def)

lemma nconv_nprod_left:
  assumes "k < n"
  shows "nconv (nprod a s n) r n k
         = cv n (\<lambda>i. a ! i) (\<lambda>j. cv n (\<lambda>i. s ! i) (\<lambda>i. r ! i) (int j)) (int k)"
proof -
  have n: "0 < n" using assms by simp
  have "nconv (nprod a s n) r n k
        = cv n (\<lambda>i. nprod a s n ! i) (\<lambda>j. r ! j) (int k)"
    by (rule nconv_cv[OF assms])
  also have "\<dots> = cv n (\<lambda>m. cv n (\<lambda>i. a ! i) (\<lambda>i. s ! i) (int m)) (\<lambda>j. r ! j) (int k)"
    by (rule cv_cong[OF n]) (simp_all add: nprod_nth nconv_cv)
  also have "\<dots> = cv n (\<lambda>i. a ! i) (\<lambda>j. cv n (\<lambda>i. s ! i) (\<lambda>i. r ! i) (int j)) (int k)"
    by (rule cv_assoc[OF n])
  finally show ?thesis .
qed

lemma nconv_nprod_right:
  assumes "k < n"
  shows "nconv s (nprod a r n) n k
         = cv n (\<lambda>i. a ! i) (\<lambda>j. cv n (\<lambda>i. s ! i) (\<lambda>i. r ! i) (int j)) (int k)"
proof -
  have n: "0 < n" using assms by simp
  have "nconv s (nprod a r n) n k
        = cv n (\<lambda>i. s ! i) (\<lambda>j. nprod a r n ! j) (int k)"
    by (rule nconv_cv[OF assms])
  also have "\<dots> = cv n (\<lambda>j. nprod a r n ! j) (\<lambda>i. s ! i) (int k)"
    by (rule cv_commute[OF n])
  also have "\<dots> = cv n (\<lambda>m. cv n (\<lambda>i. a ! i) (\<lambda>i. r ! i) (int m)) (\<lambda>i. s ! i) (int k)"
    by (rule cv_cong[OF n]) (simp_all add: nprod_nth nconv_cv)
  also have "\<dots> = cv n (\<lambda>i. a ! i) (\<lambda>j. cv n (\<lambda>i. r ! i) (\<lambda>i. s ! i) (int j)) (int k)"
    by (rule cv_assoc[OF n])
  also have "\<dots> = cv n (\<lambda>i. a ! i) (\<lambda>j. cv n (\<lambda>i. s ! i) (\<lambda>i. r ! i) (int j)) (int k)"
    by (rule cv_cong[OF n]) (simp_all add: cv_commute[OF n])
  finally show ?thesis .
qed

lemma nconv_exchange:
  "k < n \<Longrightarrow> nconv (nprod a s n) r n k = nconv s (nprod a r n) n k"
  by (simp add: nconv_nprod_left nconv_nprod_right)

subsection \<open>Congruence, linearity and size\<close>

lemma ncoef_cases:
  assumes "k < n" "j < n"
  obtains m where "m < n" "\<And>x. ncoef x n k j = x ! m"
  | m where "m < n" "\<And>x. ncoef x n k j = - (x ! m)"
proof (cases "j \<le> k")
  case True
  have "k - j < n" using assms by simp
  moreover have "\<And>x. ncoef x n k j = x ! (k - j)" using True by (simp add: ncoef_def)
  ultimately show ?thesis by (rule that(1))
next
  case False
  have "k + n - j < n" using assms False by simp
  moreover have "\<And>x. ncoef x n k j = - (x ! (k + n - j))" using False by (simp add: ncoef_def)
  ultimately show ?thesis by (rule that(2))
qed

lemma ncoef_mod_cong:
  assumes "k < n" "j < n" "\<And>m. m < n \<Longrightarrow> x ! m mod q = x' ! m mod q"
  shows "ncoef x n k j mod q = ncoef x' n k j mod q"
proof (cases rule: ncoef_cases[OF assms(1,2)])
  case (1 m)
  show ?thesis unfolding 1(2) by (rule assms(3)[OF 1(1)])
next
  case (2 m)
  show ?thesis unfolding 2(2) by (rule mod_minus_cong[OF assms(3)[OF 2(1)]])
qed

lemma nconv_mod_cong_left:
  assumes "k < n" "\<And>m. m < n \<Longrightarrow> x ! m mod q = x' ! m mod q"
  shows "nconv x y n k mod q = nconv x' y n k mod q"
  unfolding nconv_def
proof (rule sum_mod_cong)
  fix j assume "j \<in> {..<n}"
  then have "ncoef x n k j mod q = ncoef x' n k j mod q"
    using ncoef_mod_cong[OF assms(1) _ assms(2)] by simp
  then show "ncoef x n k j * y ! j mod q = ncoef x' n k j * y ! j mod q"
    by (rule mod_mult_cong) simp
qed

lemma nconv_mod_cong_right:
  assumes "\<And>m. m < n \<Longrightarrow> y ! m mod q = y' ! m mod q"
  shows "nconv x y n k mod q = nconv x y' n k mod q"
  unfolding nconv_def
proof (rule sum_mod_cong)
  fix j assume "j \<in> {..<n}"
  then have "y ! j mod q = y' ! j mod q" using assms by simp
  then show "ncoef x n k j * y ! j mod q = ncoef x n k j * y' ! j mod q"
    by (rule mod_mult_cong[OF refl])
qed

lemma nconv_add_right:
  assumes "\<And>m. m < n \<Longrightarrow> y ! m = u ! m + v ! m"
  shows "nconv x y n k = nconv x u n k + nconv x v n k"
proof -
  have "nconv x y n k = (\<Sum>j<n. ncoef x n k j * u ! j + ncoef x n k j * v ! j)"
    unfolding nconv_def by (intro sum.cong refl) (simp add: assms algebra_simps)
  then show ?thesis by (simp add: nconv_def sum.distrib)
qed

lemma nconv_diff_left:
  assumes "k < n" "\<And>m. m < n \<Longrightarrow> x ! m = u ! m - v ! m"
  shows "nconv x y n k = nconv u y n k - nconv v y n k"
proof -
  have c: "ncoef x n k j = ncoef u n k j - ncoef v n k j" if "j < n" for j
  proof (cases rule: ncoef_cases[OF assms(1) that])
    case (1 m)
    show ?thesis unfolding 1(2) by (rule assms(2)[OF 1(1)])
  next
    case (2 m)
    show ?thesis unfolding 2(2) using assms(2)[OF 2(1)] by simp
  qed
  have "nconv x y n k = (\<Sum>j<n. ncoef u n k j * y ! j - ncoef v n k j * y ! j)"
    unfolding nconv_def
  proof (intro sum.cong refl)
    fix j assume "j \<in> {..<n}"
    then have "ncoef x n k j = ncoef u n k j - ncoef v n k j" using c by simp
    then show "ncoef x n k j * y ! j = ncoef u n k j * y ! j - ncoef v n k j * y ! j"
      by (simp only: left_diff_distrib)
  qed
  then show ?thesis by (simp add: nconv_def sum_subtractf)
qed

lemma ncoef_bound:
  assumes "k < n" "j < n" "\<And>m. m < n \<Longrightarrow> \<bar>x ! m\<bar> \<le> B"
  shows "\<bar>ncoef x n k j\<bar> \<le> B"
proof (cases rule: ncoef_cases[OF assms(1,2)])
  case (1 m)
  show ?thesis unfolding 1(2) by (rule assms(3)[OF 1(1)])
next
  case (2 m)
  show ?thesis unfolding 2(2) using assms(3)[OF 2(1)] by simp
qed

lemma nconv_bound:
  assumes "k < n" "\<And>m. m < n \<Longrightarrow> \<bar>x ! m\<bar> \<le> B" "\<And>m. m < n \<Longrightarrow> \<bar>y ! m\<bar> \<le> C"
  shows "\<bar>nconv x y n k\<bar> \<le> int n * (B * C)"
proof -
  have "\<bar>nconv x y n k\<bar> \<le> (\<Sum>j<n. \<bar>ncoef x n k j * y ! j\<bar>)"
    unfolding nconv_def by (rule sum_abs)
  also have "\<dots> \<le> (\<Sum>j<n. B * C)"
  proof (rule sum_mono)
    fix j assume "j \<in> {..<n}"
    then have j: "j < n" by simp
    have b1: "\<bar>ncoef x n k j\<bar> \<le> B" by (rule ncoef_bound[OF assms(1) j assms(2)])
    have b2: "\<bar>y ! j\<bar> \<le> C" by (rule assms(3)[OF j])
    have "0 \<le> B" using b1 by linarith
    then have "\<bar>ncoef x n k j\<bar> * \<bar>y ! j\<bar> \<le> B * C"
      using b1 b2 by (intro mult_mono) simp_all
    then show "\<bar>ncoef x n k j * y ! j\<bar> \<le> B * C" by (simp add: abs_mult)
  qed
  also have "\<dots> = int n * (B * C)" by simp
  finally show ?thesis .
qed

section \<open>Rounding a noisy slot\<close>

lemma div_between:
  fixes D :: int
  assumes "0 < D" "D * lo \<le> a" "a < D * hi"
  shows "lo \<le> a div D \<and> a div D < hi"
proof -
  define f where "f = a div D"
  define r where "r = a mod D"
  have a: "a = D * f + r" by (simp add: f_def r_def)
  have r: "0 \<le> r" "r < D" using assms(1) by (simp_all add: r_def)
  have "D * f < D * hi" using a r assms(3) by linarith
  then have hi: "f < hi" using assms(1) by (simp add: mult_less_cancel_left_pos)
  have "D * lo < D * (f + 1)" using a r assms(2) by (simp add: distrib_left) 
  then have "lo < f + 1" using assms(1) by (simp add: mult_less_cancel_left_pos)
  then show ?thesis using hi by (simp add: f_def)
qed

lemma round_tenths:
  fixes D :: int
  assumes "0 < D" "- D < 2 * eps" "2 * eps < D"
  shows "(10 * (D * k + eps) div D + 5) div 10 = k"
proof -
  define f where "f = (10 * eps) div D"
  have e: "10 * (D * k + eps) = 10 * eps + (10 * k) * D" by (simp add: algebra_simps)
  have "D \<noteq> 0" using assms(1) by simp
  then have "(10 * eps + (10 * k) * D) div D = 10 * k + 10 * eps div D"
    by (rule div_mult_self1)
  then have d: "10 * (D * k + eps) div D = f + 10 * k"
    unfolding e by (simp add: f_def)
  have "- 5 \<le> f \<and> f < 5"
    unfolding f_def by (rule div_between[OF assms(1)]) (use assms in simp_all)
  then have g: "0 \<le> f + 5" "f + 5 < 10" by simp_all
  have "(f + 10 * k + 5) div 10 = ((f + 5) + k * 10) div 10" by (simp add: algebra_simps)
  also have "\<dots> = k + (f + 5) div 10" by simp
  also have "(f + 5) div 10 = 0" using g by (rule div_pos_pos_trivial)
  finally have "(f + 10 * k + 5) div 10 = k" by simp
  then show ?thesis unfolding d .
qed

definition nearest :: "int \<Rightarrow> int" where
  \<comment> \<open>the rounding inside \<open>round_slot\<close>, before the reduction modulo 256\<close>
  "nearest c = bigint_div (bigint_div (c * 10) DELTA + (if c \<ge> 0 then 5 else - 5)) 10"

lemma nearest_value:
  assumes "- DELTA < 2 * eps" "2 * eps < DELTA"
  shows "nearest (DELTA * k + eps) = k"
proof -
  have D: "0 < DELTA" by (simp add: DELTA_eq)
  let ?c = "DELTA * k + eps"
  show ?thesis
  proof (cases "0 \<le> ?c")
    case True
    have "0 \<le> 10 * ?c div DELTA" using True D by (simp add: pos_imp_zdiv_nonneg_iff)
    then have "nearest ?c = (10 * ?c div DELTA + 5) div 10"
      using True D by (simp add: nearest_def bigint_div_nonneg mult.commute)
    then show ?thesis using round_tenths[OF D assms] by simp
  next
    case False
    then have neg: "?c < 0" by simp
    have e: "- ?c = DELTA * (- k) + (- eps)" by (simp add: algebra_simps)
    have r: "(10 * (DELTA * (- k) + (- eps)) div DELTA + 5) div 10 = - k"
      by (rule round_tenths[OF D]) (use assms in simp_all)
    have "0 \<le> 10 * (- ?c) div DELTA" using neg D by (simp add: pos_imp_zdiv_nonneg_iff)
    moreover have "bigint_div (?c * 10) DELTA = - (10 * (- ?c) div DELTA)"
      using neg D by (simp add: bigint_div_neg mult.commute)
    ultimately have "nearest ?c = - ((10 * (- ?c) div DELTA + 5) div 10)"
      using neg by (simp add: nearest_def bigint_div_neg)
    then show ?thesis using r unfolding e by simp
  qed
qed

lemma round_slot_nearest: "round_slot c = nearest c mod 256"
proof -
  have "mod_norm (bigint_rem (nearest c) 256) 256 = nearest c mod 256"
    by (simp add: mod_norm_eq bigint_rem_cong)
  then show ?thesis by (simp add: round_slot_def nearest_def PLAINTEXT_MOD_def Let_def)
qed

lemma centered_noisy:
  assumes "0 \<le> m" "m < 256" "\<bar>eta\<bar> \<le> 327678"
  shows "\<exists>c k eps. centeredMod ((DELTA * m + eta) mod RLWE_Q) RLWE_Q = Inr c
           \<and> c = DELTA * k + eps \<and> k mod 256 = m \<and> - DELTA < 2 * eps \<and> 2 * eps < DELTA"
proof -
  define t where "t = DELTA * m + eta"
  have t: "- 327678 \<le> t" "t \<le> 167444478"
    using assms by (simp_all add: t_def DELTA_eq)
  show ?thesis
  proof (cases "0 \<le> t \<and> t \<le> 83886080")
    case True
    then have "t mod RLWE_Q = t" by (simp add: RLWE_Q_def)
    then have "centeredMod (t mod RLWE_Q) RLWE_Q = Inr t"
      using True by (simp add: centeredMod_value RLWE_Q_pos) (simp add: RLWE_Q_def)
    moreover have "t = DELTA * m + eta" by (simp add: t_def)
    moreover have "m mod 256 = m" using assms by simp
    moreover have "- DELTA < 2 * eta" "2 * eta < DELTA" using assms(3) by (simp_all add: DELTA_eq)
    ultimately show ?thesis unfolding t_def by blast
  next
    case False
    show ?thesis
    proof (cases "t < 0")
      case True
      then have "0 \<le> t + RLWE_Q" "t + RLWE_Q < RLWE_Q"
        using t by (simp_all add: RLWE_Q_def)
      then have "(t + RLWE_Q) mod RLWE_Q = t + RLWE_Q"
        by (rule mod_pos_pos_trivial)
      then have "t mod RLWE_Q = t + RLWE_Q" by simp
      then have "centeredMod (t mod RLWE_Q) RLWE_Q = Inr t"
        using True t by (simp add: centeredMod_value RLWE_Q_pos) (simp add: RLWE_Q_def)
      moreover have "t = DELTA * m + eta" by (simp add: t_def)
      moreover have "m mod 256 = m" using assms by simp
      moreover have "- DELTA < 2 * eta" "2 * eta < DELTA"
        using assms(3) by (simp_all add: DELTA_eq)
      ultimately show ?thesis unfolding t_def by blast
    next
      case F2: False
      then have big: "83886080 < t" using False by simp
      then have "t mod RLWE_Q = t" using t by (simp add: RLWE_Q_def)
      then have "centeredMod (t mod RLWE_Q) RLWE_Q = Inr (t - RLWE_Q)"
        using big by (simp add: centeredMod_value RLWE_Q_pos) (simp add: RLWE_Q_def)
      moreover have "t - RLWE_Q = DELTA * (m - 256) + (eta - 1)"
        by (simp add: t_def DELTA_eq RLWE_Q_def algebra_simps)
      moreover have "(m - 256) mod 256 = m" using assms by simp
      moreover have "- DELTA < 2 * (eta - 1)" "2 * (eta - 1) < DELTA"
        using assms(3) by (simp_all add: DELTA_eq)
      ultimately show ?thesis unfolding t_def by blast
    qed
  qed
qed

lemma decrypt_noisy_slot:
  assumes "0 \<le> m" "m < 256" "\<bar>eta\<bar> \<le> 327678" "v mod RLWE_Q = (DELTA * m + eta) mod RLWE_Q"
    "0 \<le> v"
  shows "\<exists>c. centeredMod (bigint_rem v RLWE_Q) RLWE_Q = Inr c \<and> round_slot c = m"
proof -
  from centered_noisy[OF assms(1-3)] obtain c k eps where
    c: "centeredMod ((DELTA * m + eta) mod RLWE_Q) RLWE_Q = Inr c"
    and ck: "c = DELTA * k + eps" "k mod 256 = m" "- DELTA < 2 * eps" "2 * eps < DELTA"
    by blast
  have "bigint_rem v RLWE_Q = (DELTA * m + eta) mod RLWE_Q"
    using assms(4,5) by (simp add: bigint_rem_nonneg RLWE_Q_pos)
  then have "centeredMod (bigint_rem v RLWE_Q) RLWE_Q = Inr c" using c by simp
  moreover have "round_slot c = m"
    using ck by (simp add: round_slot_nearest nearest_value)
  ultimately show ?thesis by blast
qed

section \<open>Bytes of the owner coordinates\<close>

lemma and255: "(x::int) AND 255 = x mod 256"
proof -
  have "(255::int) = mask 8" by (simp add: mask_eq_exp_minus_1)
  then show ?thesis by (simp only: flip: take_bit_eq_mask) (simp add: take_bit_eq_mod)
qed

lemma length_encodeFieldToBytes [simp]: "length (encodeFieldToBytes v n) = n"
  by (simp add: encodeFieldToBytes_def)

lemma foldl_add_sum:
  fixes g :: "nat \<Rightarrow> int"
  shows "foldl (\<lambda>acc i. acc + g i) a [0..<n] = a + (\<Sum>i<n. g i)"
  by (induction n) simp_all

lemma assemble_sum:
  "assemble ms off = (\<Sum>i<32. (ms ! (off + i) mod 256) * 256 ^ i)"
proof -
  have "push_bit (i * 8) (ms ! (off + i) AND 255) = (ms ! (off + i) mod 256) * 256 ^ i" for i
  proof -
    have "(2::int) ^ (i * 8) = 256 ^ i"
      using power_mult[of "2::int" 8 i] by (simp add: mult.commute)
    then show ?thesis by (simp add: push_bit_eq_mult and255)
  qed
  then show ?thesis by (simp add: assemble_def foldl_add_sum)
qed

lemma bytes_sum:
  fixes x :: int
  shows "(\<Sum>i<k. (x div 256 ^ i mod 256) * 256 ^ i) = x mod 256 ^ k"
proof (induction k)
  case 0
  then show ?case by simp
next
  case (Suc k)
  have "x mod 256 ^ Suc k = x mod (256 ^ k * 256)" by (simp add: mult.commute)
  also have "\<dots> = 256 ^ k * (x div 256 ^ k mod 256) + x mod 256 ^ k"
    by (rule zmod_zmult2_eq) simp
  finally show ?case using Suc by (simp add: mult.commute)
qed

lemma encodeFieldToBytes_nth:
  "i < n \<Longrightarrow> encodeFieldToBytes v n ! i = v div 256 ^ i mod 256"
proof -
  assume i: "i < n"
  have "(2::int) ^ (i * 8) = 256 ^ i"
    using power_mult[of "2::int" 8 i] by (simp add: mult.commute)
  then show ?thesis using i by (simp add: encodeFieldToBytes_def drop_bit_eq_div and255)
qed

lemma message_slots_nth:
  "i < 32 \<Longrightarrow> message_slots x y ! i = x div 256 ^ i mod 256"
  "i < 32 \<Longrightarrow> message_slots x y ! (32 + i) = y div 256 ^ i mod 256"
  by (simp_all add: message_slots_def nth_append encodeFieldToBytes_nth)

lemma message_slots_byte:
  assumes "i < MSG_SLOTS"
  shows "0 \<le> message_slots x y ! i \<and> message_slots x y ! i < 256"
proof (cases "i < 32")
  case True
  then show ?thesis by (simp add: message_slots_nth(1))
next
  case False
  define j where "j = i - 32"
  have j: "i = 32 + j" "j < 32"
    using False assms by (simp_all add: j_def MSG_SLOTS_def)
  show ?thesis unfolding j(1) using j(2) by (simp add: message_slots_nth(2))
qed

lemma assemble_message_slots:
  assumes "0 \<le> x" "x < 2 ^ 256" "0 \<le> y" "y < 2 ^ 256"
  shows "assemble (message_slots x y) 0 = x" "assemble (message_slots x y) 32 = y"
proof -
  have p: "(256::int) ^ 32 = 2 ^ 256" by simp
  have "assemble (message_slots x y) 0 = (\<Sum>i<32. (x div 256 ^ i mod 256) * 256 ^ i)"
    unfolding assemble_sum by (intro sum.cong refl) (simp add: message_slots_nth(1))
  also have "\<dots> = x mod 256 ^ 32" by (rule bytes_sum)
  finally show "assemble (message_slots x y) 0 = x" using assms(1,2) unfolding p by simp
  have "assemble (message_slots x y) 32 = (\<Sum>i<32. (y div 256 ^ i mod 256) * 256 ^ i)"
    unfolding assemble_sum by (intro sum.cong refl) (simp add: message_slots_nth(2))
  also have "\<dots> = y mod 256 ^ 32" by (rule bytes_sum)
  finally show "assemble (message_slots x y) 32 = y" using assms(3,4) unfolding p by simp
qed

section \<open>Decryption of an honest ciphertext\<close>

lemma rlweDecrypt_value:
  assumes "N \<le> length sk" "N \<le> length c1'" "MSG_SLOTS \<le> length c0"
    and "\<And>i. i < MSG_SLOTS \<Longrightarrow>
           \<exists>c. centeredMod (bigint_rem (c0 ! i + nconv sk c1' N i mod RLWE_Q) RLWE_Q) RLWE_Q = Inr c
               \<and> round_slot c = m ! i"
    and "length m = MSG_SLOTS"
  shows "rlweDecrypt c0 c1' sk = Inr \<lparr>ownerX = assemble m 0, ownerY = assemble m 32\<rparr>"
proof -
  let ?skC1 = "map (\<lambda>k. nconv sk c1' N k mod RLWE_Q) [0..<N]"
  have mul: "negacyclicMulModQ sk c1' N RLWE_Q = Inr ?skC1"
    using assms(1,2) by (simp add: negacyclicMulModQ_value RLWE_Q_pos)
  have slot: "decrypt_slot c0 ?skC1 i = Inr (m ! i)" if lt: "i < MSG_SLOTS" for i
  proof -
    have iN: "i < N" using lt MSG_SLOTS_le_N by simp
    obtain c where c: "centeredMod (bigint_rem (c0 ! i + nconv sk c1' N i mod RLWE_Q) RLWE_Q)
                         RLWE_Q = Inr c" "round_slot c = m ! i"
      using assms(4)[OF lt] by blast
    show ?thesis
      using lt iN assms(3) c by (simp add: decrypt_slot_def at_in_range)
  qed
  have "mapE (decrypt_slot c0 ?skC1) [0..<MSG_SLOTS] = Inr (map (\<lambda>i. m ! i) [0..<MSG_SLOTS])"
    by (rule mapE_all_Inr) (simp add: slot)
  also have "map (\<lambda>i. m ! i) [0..<MSG_SLOTS] = m"
    using assms(5) map_nth[of m] by simp
  finally show ?thesis using mul by (simp add: rlweDecrypt_def)
qed

lemma mod_eq_diff:
  fixes b e w q :: int
  assumes "(b + w mod q) mod q = e mod q"
  shows "b mod q = (e - w) mod q"
proof -
  have "(b + w) mod q = e mod q" using assms by (simp add: mod_add_right_eq)
  then have "((b + w) - w) mod q = (e - w) mod q" by (rule mod_diff_cong) simp
  then show ?thesis by simp
qed

lemma honest_slot_congruence:
  fixes a b s e r e2 :: "int list"
  assumes i: "i < N"
    and key: "\<And>k. k < N \<Longrightarrow> (b ! k + nconv a sk N k mod RLWE_Q) mod RLWE_Q = e ! k mod RLWE_Q"
    and sk: "\<And>k. k < N \<Longrightarrow> sk ! k mod RLWE_Q = s ! k mod RLWE_Q"
    and c1: "\<And>k. k < N \<Longrightarrow> c1' ! k = (nconv a r N k + e2 ! k) mod RLWE_Q"
  shows "(nconv b r N i + u + nconv sk c1' N i) mod RLWE_Q
         = (u + (nconv e r N i + nconv s e2 N i)) mod RLWE_Q"
proof -
  define X where "X = nconv sk (nprod a r N) N i"
  define b' where "b' = map (\<lambda>k. e ! k - nprod a sk N ! k) [0..<N]"
  define c1'' where "c1'' = map (\<lambda>k. nprod a r N ! k + e2 ! k) [0..<N]"
  have "nconv b r N i mod RLWE_Q = nconv b' r N i mod RLWE_Q"
  proof (rule nconv_mod_cong_left[OF i])
    fix k assume k: "k < N"
    then show "b ! k mod RLWE_Q = b' ! k mod RLWE_Q"
      using mod_eq_diff[OF key[OF k]] by (simp add: b'_def nprod_nth)
  qed
  moreover have "nconv b' r N i = nconv e r N i - nconv (nprod a sk N) r N i"
    by (rule nconv_diff_left[OF i]) (simp add: b'_def)
  moreover have "nconv (nprod a sk N) r N i = X"
    unfolding X_def by (rule nconv_exchange[OF i])
  ultimately have A: "nconv b r N i mod RLWE_Q = (nconv e r N i - X) mod RLWE_Q"
    by simp
  have "nconv sk c1' N i mod RLWE_Q = nconv sk c1'' N i mod RLWE_Q"
  proof (rule nconv_mod_cong_right)
    fix k assume k: "k < N"
    then show "c1' ! k mod RLWE_Q = c1'' ! k mod RLWE_Q"
      by (simp add: c1 c1''_def nprod_nth)
  qed
  moreover have "nconv sk c1'' N i = X + nconv sk e2 N i"
    unfolding X_def by (rule nconv_add_right) (simp add: c1''_def)
  moreover have "nconv sk e2 N i mod RLWE_Q = nconv s e2 N i mod RLWE_Q"
    by (rule nconv_mod_cong_left[OF i]) (rule sk)
  ultimately have B: "nconv sk c1' N i mod RLWE_Q = (X + nconv s e2 N i) mod RLWE_Q"
    by (metis mod_add_right_eq)
  have "(nconv b r N i + u + nconv sk c1' N i) mod RLWE_Q
        = ((nconv e r N i - X) + u + (X + nconv s e2 N i)) mod RLWE_Q"
    by (intro mod_add_cong A B refl)
  also have "(nconv e r N i - X) + u + (X + nconv s e2 N i)
             = u + (nconv e r N i + nconv s e2 N i)"
    by simp
  finally show ?thesis .
qed

lemma honest_slot_decrypts:
  fixes pk :: RlwePk and rnd :: "nat \<Rightarrow> nat" and x y :: int and s e sk :: "int list" and i :: nat
  assumes len: "length (pk_a pk) = N" "length (pk_b pk) = N" "length s = N" "length e = N"
    and small: "\<forall>i<N. \<bar>s ! i\<bar> \<le> Bs" "\<forall>i<N. \<bar>e ! i\<bar> \<le> Be" "Bs + Be \<le> 106"
    and sk: "sk = map (\<lambda>v. v mod RLWE_Q) s"
    and key: "\<forall>k<N. (pk_b pk ! k + nconv (pk_a pk) sk N k mod RLWE_Q) mod RLWE_Q
                = e ! k mod RLWE_Q"
    and i: "i < MSG_SLOTS"
  defines "c0i \<equiv> (nconv (pk_b pk) (noise_r rnd) N i + noise_e1 rnd ! i
                    + DELTA * message_slots x y ! i) mod RLWE_Q"
    and "c1' \<equiv> map (\<lambda>k. (nconv (pk_a pk) (noise_r rnd) N k + noise_e2 rnd ! k) mod RLWE_Q) [0..<N]"
  shows "\<exists>c. centeredMod (bigint_rem (c0i + nconv sk c1' N i mod RLWE_Q) RLWE_Q) RLWE_Q = Inr c
             \<and> round_slot c = message_slots x y ! i"
proof -
  let ?r = "noise_r rnd" and ?e1 = "noise_e1 rnd" and ?e2 = "noise_e2 rnd"
  let ?m = "message_slots x y ! i"
  have iN: "i < N" using i MSG_SLOTS_le_N by simp
  define eta where "eta = ?e1 ! i + (nconv e ?r N i + nconv s ?e2 N i)"
  have b1: "\<bar>nconv e ?r N i\<bar> \<le> int N * (Be * 3)"
    by (rule nconv_bound[OF iN]) (use small(2) noise_range(1) in auto)
  have b2: "\<bar>nconv s ?e2 N i\<bar> \<le> int N * (Bs * 3)"
    by (rule nconv_bound[OF iN]) (use small(1) noise_range(3) in auto)
  have b3: "\<bar>?e1 ! i\<bar> \<le> 3" by (rule noise_range(2)[OF i])
  have eta: "\<bar>eta\<bar> \<le> 327678"
    using b1 b2 b3 small(3) unfolding eta_def N_def by simp
  have cong: "(nconv (pk_b pk) ?r N i + (?e1 ! i + DELTA * ?m) + nconv sk c1' N i) mod RLWE_Q
              = ((?e1 ! i + DELTA * ?m) + (nconv e ?r N i + nconv s ?e2 N i)) mod RLWE_Q"
  proof (rule honest_slot_congruence[OF iN])
    fix k assume k: "k < N"
    show "(pk_b pk ! k + nconv (pk_a pk) sk N k mod RLWE_Q) mod RLWE_Q = e ! k mod RLWE_Q"
      using key k by simp
    show "sk ! k mod RLWE_Q = s ! k mod RLWE_Q"
      using k len(3) by (simp add: sk)
    show "c1' ! k = (nconv (pk_a pk) ?r N k + ?e2 ! k) mod RLWE_Q"
      using k by (simp add: c1'_def)
  qed
  have "(c0i + nconv sk c1' N i mod RLWE_Q) mod RLWE_Q
        = (nconv (pk_b pk) ?r N i + (?e1 ! i + DELTA * ?m) + nconv sk c1' N i) mod RLWE_Q"
    unfolding c0i_def by (simp add: mod_add_eq add.assoc)
  also have "\<dots> = (DELTA * ?m + eta) mod RLWE_Q"
    unfolding cong eta_def by (simp add: algebra_simps)
  finally have v: "(c0i + nconv sk c1' N i mod RLWE_Q) mod RLWE_Q = (DELTA * ?m + eta) mod RLWE_Q" .
  have nonneg: "0 \<le> c0i + nconv sk c1' N i mod RLWE_Q"
    using RLWE_Q_pos by (simp add: c0i_def)
  show ?thesis
    using decrypt_noisy_slot[OF _ _ eta v nonneg] message_slots_byte[OF i, of x y] by simp
qed

text \<open>
  C1 (as the code decrypts): let the public key \<open>(a, b)\<close> have 1024 coefficients each and
  match the secret key in the sense the decryption uses, \<open>b + a * s = e\<close> in the ring modulo
  \<open>Q\<close> (that is \<open>b = - a * s + e\<close>), where the signed secret \<open>s\<close> and error \<open>e\<close> have
  coefficients bounded by \<open>Bs\<close> and \<open>Be\<close> with \<open>Bs + Be \<le> 106\<close>, and \<open>sk\<close> is \<open>s\<close> reduced into
  \<open>[0, Q)\<close>. Then for all owner coordinates below \<open>2^256\<close> (in particular all 254-bit field
  elements) and every outcome of the noise sampling, \<open>rlweEncrypt\<close> returns a ciphertext and
  \<open>rlweDecrypt\<close> returns exactly the owner coordinates from it.
\<close>

theorem rlwe_round_trip:
  assumes "length (pk_a pk) = N" "length (pk_b pk) = N" "length s = N" "length e = N"
    and "\<forall>i<N. \<bar>s ! i\<bar> \<le> Bs" "\<forall>i<N. \<bar>e ! i\<bar> \<le> Be" "Bs + Be \<le> 106"
    and "sk = map (\<lambda>v. v mod RLWE_Q) s"
    and "negacyclicMulModQ (pk_a pk) sk N RLWE_Q = Inr as"
    and "\<forall>k<N. (pk_b pk ! k + as ! k) mod RLWE_Q = e ! k mod RLWE_Q"
    and "0 \<le> x" "x < 2 ^ 256" "0 \<le> y" "y < 2 ^ 256"
  shows "\<exists>ct. rlweEncrypt pk rnd x y = Inr ct
           \<and> rlweDecrypt (c0Sparse ct) (c1 ct) sk = Inr \<lparr>ownerX = x, ownerY = y\<rparr>"
proof -
  let ?c0 = "map (\<lambda>i. (nconv (pk_b pk) (noise_r rnd) N i + noise_e1 rnd ! i
                        + DELTA * message_slots x y ! i) mod RLWE_Q) [0..<MSG_SLOTS]"
  let ?c1 = "map (\<lambda>k. (nconv (pk_a pk) (noise_r rnd) N k + noise_e2 rnd ! k) mod RLWE_Q) [0..<N]"
  let ?ct = "\<lparr>c0Sparse = ?c0, c1 = ?c1, rSigned = noise_r rnd, e1Signed = noise_e1 rnd,
              e2Signed = noise_e2 rnd, msg = message_slots x y\<rparr>"
  have enc: "rlweEncrypt pk rnd x y = Inr ?ct"
    by (rule rlweEncrypt_value) (simp_all add: assms(1,2))
  have lsk: "length sk = N" by (simp add: assms(8) assms(3))
  have "as = map (\<lambda>k. nconv (pk_a pk) sk N k mod RLWE_Q) [0..<N]"
    using assms(9) by (simp add: negacyclicMulModQ_value assms(1) lsk RLWE_Q_pos)
  then have key: "\<forall>k<N. (pk_b pk ! k + nconv (pk_a pk) sk N k mod RLWE_Q) mod RLWE_Q
                     = e ! k mod RLWE_Q"
    using assms(10) by simp
  have slot: "\<exists>c. centeredMod (bigint_rem (?c0 ! i + nconv sk ?c1 N i mod RLWE_Q) RLWE_Q) RLWE_Q
                  = Inr c \<and> round_slot c = message_slots x y ! i"
    if lt: "i < MSG_SLOTS" for i
    using honest_slot_decrypts[OF assms(1-8) key lt, of rnd x y] lt by simp
  have "rlweDecrypt ?c0 ?c1 sk
        = Inr \<lparr>ownerX = assemble (message_slots x y) 0, ownerY = assemble (message_slots x y) 32\<rparr>"
  proof (rule rlweDecrypt_value)
    show "N \<le> length sk" "N \<le> length ?c1" "MSG_SLOTS \<le> length ?c0"
      "length (message_slots x y) = MSG_SLOTS"
      by (simp_all add: lsk length_message_slots)
  next
    fix i assume "i < MSG_SLOTS"
    then show "\<exists>c. centeredMod (bigint_rem (?c0 ! i + nconv sk ?c1 N i mod RLWE_Q) RLWE_Q)
                     RLWE_Q = Inr c \<and> round_slot c = message_slots x y ! i"
      by (rule slot)
  qed
  then have "rlweDecrypt ?c0 ?c1 sk = Inr \<lparr>ownerX = x, ownerY = y\<rparr>"
    by (simp add: assemble_message_slots[OF assms(11-14)])
  then show ?thesis using enc by simp
qed

section \<open>Keys built from unit vectors\<close>

definition scaled_unit :: "nat \<Rightarrow> int \<Rightarrow> int list" where
  \<comment> \<open>the constant polynomial \<open>c\<close> as a list of \<open>n\<close> coefficients\<close>
  "scaled_unit n c = (replicate n 0)[0 := c]"

lemma scaled_unit_nth: "k < n \<Longrightarrow> scaled_unit n c ! k = (if k = 0 then c else 0)"
  by (simp add: scaled_unit_def nth_list_update)

lemma length_scaled_unit [simp]: "length (scaled_unit n c) = n"
  by (simp add: scaled_unit_def)

lemma nconv_scaled_unit_right:
  assumes "k < n"
  shows "nconv a (scaled_unit n c) n k = a ! k * c"
proof -
  have n: "0 < n" using assms by simp
  have "nconv a (scaled_unit n c) n k = (\<Sum>j<n. if j = 0 then ncoef a n k 0 * c else 0)"
    unfolding nconv_def by (intro sum.cong refl) (simp add: scaled_unit_nth)
  also have "\<dots> = ncoef a n k 0 * c" using n by (simp add: sum.delta)
  finally show ?thesis by (simp add: ncoef_def)
qed

lemma zero_one_noise:
  "noise_r (\<lambda>k. if k = 0 then 4 else 3) = scaled_unit N 1"
  "noise_e1 (\<lambda>k. if k = 0 then 4 else 3) = replicate MSG_SLOTS 0"
  "noise_e2 (\<lambda>k. if k = 0 then 4 else 3) = replicate N 0"
proof -
  have s: "smallNoise 4 = 1" "smallNoise 3 = 0" by (simp_all add: smallNoise_def)
  show "noise_r (\<lambda>k. if k = 0 then 4 else 3) = scaled_unit N 1"
    by (intro nth_equalityI) (simp_all add: noise_r_def scaled_unit_nth s)
  have "N \<noteq> 0" using N_pos by simp
  then show "noise_e1 (\<lambda>k. if k = 0 then 4 else 3) = replicate MSG_SLOTS 0"
    "noise_e2 (\<lambda>k. if k = 0 then 4 else 3) = replicate N 0"
    by (intro nth_equalityI; simp add: noise_e1_def noise_e2_def s)+
qed

lemma scaled_unit_mod:
  assumes "0 \<le> c" "c < RLWE_Q"
  shows "map (\<lambda>v. v mod RLWE_Q) (scaled_unit n c) = scaled_unit n c"
  by (intro nth_equalityI) (use assms in \<open>simp_all add: scaled_unit_nth\<close>)

lemma nprod_scaled_units:
  assumes "0 \<le> c" "c < RLWE_Q"
  shows "map (\<lambda>k. nconv (scaled_unit N c) (scaled_unit N 1) N k mod RLWE_Q) [0..<N]
         = scaled_unit N c"
  by (intro nth_equalityI)
     (use assms in \<open>simp_all add: nconv_scaled_unit_right scaled_unit_nth\<close>)

lemma mul_scaled_units:
  assumes "0 \<le> c" "c < RLWE_Q"
  shows "negacyclicMulModQ (scaled_unit N c) (scaled_unit N 1) N RLWE_Q = Inr (scaled_unit N c)"
  by (simp add: negacyclicMulModQ_value RLWE_Q_pos nprod_scaled_units[OF assms])

definition unit_noise_bytes :: "nat \<Rightarrow> nat" where
  \<comment> \<open>random bytes that make \<open>r = 1\<close> (the constant polynomial) and \<open>e1 = e2 = 0\<close>\<close>
  "unit_noise_bytes k = (if k = 0 then 4 else 3)"

lemma unit_noise:
  "noise_r unit_noise_bytes = scaled_unit N 1"
  "noise_e1 unit_noise_bytes = replicate MSG_SLOTS 0"
  "noise_e2 unit_noise_bytes = replicate N 0"
proof -
  have eq: "unit_noise_bytes = (\<lambda>k. if k = 0 then 4 else 3)"
    by (rule ext) (simp add: unit_noise_bytes_def)
  show "noise_r unit_noise_bytes = scaled_unit N 1"
    unfolding eq by (rule zero_one_noise(1))
  show "noise_e1 unit_noise_bytes = replicate MSG_SLOTS 0"
    unfolding eq by (rule zero_one_noise(2))
  show "noise_e2 unit_noise_bytes = replicate N 0"
    unfolding eq by (rule zero_one_noise(3))
qed

definition plus_key :: RlwePk where
  \<comment> \<open>\<open>a = DELTA\<close>, \<open>s = 1\<close>, \<open>e = 0\<close> and \<open>b = a * s + e\<close>\<close>
  "plus_key = \<lparr>pk_a = scaled_unit N 655360, pk_b = scaled_unit N 655360\<rparr>"

lemma rlweEncrypt_plus_key:
  "rlweEncrypt plus_key unit_noise_bytes 0 0
   = Inr \<lparr>c0Sparse = scaled_unit MSG_SLOTS 655360, c1 = scaled_unit N 655360,
          rSigned = scaled_unit N 1, e1Signed = replicate MSG_SLOTS 0,
          e2Signed = replicate N 0, msg = replicate MSG_SLOTS 0\<rparr>"
proof -
  have key: "N \<le> length (pk_a plus_key)" "N \<le> length (pk_b plus_key)"
    by (simp_all add: plus_key_def)
  have i: "i < N" if "i < MSG_SLOTS" for i using that MSG_SLOTS_le_N by simp
  have c0: "map (\<lambda>i. (nconv (pk_b plus_key) (scaled_unit N 1) N i + replicate MSG_SLOTS 0 ! i
                  + DELTA * replicate MSG_SLOTS 0 ! i) mod RLWE_Q) [0..<MSG_SLOTS]
            = scaled_unit MSG_SLOTS 655360"
    by (intro nth_equalityI)
       (simp_all add: plus_key_def nconv_scaled_unit_right i scaled_unit_nth RLWE_Q_def)
  have c1: "map (\<lambda>i. (nconv (pk_a plus_key) (scaled_unit N 1) N i + replicate N 0 ! i)
                  mod RLWE_Q) [0..<N] = scaled_unit N 655360"
    by (intro nth_equalityI)
       (simp_all add: plus_key_def nconv_scaled_unit_right scaled_unit_nth RLWE_Q_def)
  show ?thesis
    unfolding rlweEncrypt_value[OF key] unit_noise message_slots_zero
    unfolding c0 c1 ..
qed

lemma round_slot_values: "round_slot 1310720 = 2" "round_slot 0 = 0"
  by (simp_all add: round_slot_def DELTA_eq PLAINTEXT_MOD_def bigint_div_def bigint_rem_def
      mod_norm_def)

lemma centeredMod_values:
  "centeredMod 1310720 RLWE_Q = Inr 1310720" "centeredMod 0 RLWE_Q = Inr 0"
  by (simp_all add: centeredMod_value RLWE_Q_pos) (simp_all add: RLWE_Q_def)

lemma assemble_scaled_unit:
  "assemble (scaled_unit MSG_SLOTS 2) 0 = 2" "assemble (scaled_unit MSG_SLOTS 2) 32 = 0"
proof -
  have "(scaled_unit MSG_SLOTS 2 ! (0 + i) mod 256) * 256 ^ i = (if i = 0 then 2 else 0)"
    if "i < 32" for i :: nat
    using that by (simp add: scaled_unit_nth MSG_SLOTS_def)
  then have "assemble (scaled_unit MSG_SLOTS 2) 0 = (\<Sum>i<(32::nat). if i = 0 then 2 else 0)"
    unfolding assemble_sum by (intro sum.cong refl) simp
  then show "assemble (scaled_unit MSG_SLOTS 2) 0 = 2" by (simp add: sum.delta)
  have "(scaled_unit MSG_SLOTS 2 ! (32 + i) mod 256) * 256 ^ i = 0" if "i < 32" for i :: nat
    using that by (simp add: scaled_unit_nth MSG_SLOTS_def)
  then have "assemble (scaled_unit MSG_SLOTS 2) 32 = (\<Sum>i<(32::nat). 0)"
    unfolding assemble_sum by (intro sum.cong refl) simp
  then show "assemble (scaled_unit MSG_SLOTS 2) 32 = 0" by simp
qed

lemma rlweDecrypt_plus_key:
  "rlweDecrypt (scaled_unit MSG_SLOTS 655360) (scaled_unit N 655360) (scaled_unit N 1)
   = Inr \<lparr>ownerX = 2, ownerY = 0\<rparr>"
proof -
  have "rlweDecrypt (scaled_unit MSG_SLOTS 655360) (scaled_unit N 655360) (scaled_unit N 1)
        = Inr \<lparr>ownerX = assemble (scaled_unit MSG_SLOTS 2) 0,
               ownerY = assemble (scaled_unit MSG_SLOTS 2) 32\<rparr>"
  proof (rule rlweDecrypt_value)
    show "N \<le> length (scaled_unit N 1)" "N \<le> length (scaled_unit N 655360)"
      "MSG_SLOTS \<le> length (scaled_unit MSG_SLOTS 655360)"
      "length (scaled_unit MSG_SLOTS 2) = MSG_SLOTS"
      by simp_all
  next
    fix i assume lt: "i < MSG_SLOTS"
    then have iN: "i < N" using MSG_SLOTS_le_N by simp
    have "bigint_rem (scaled_unit MSG_SLOTS 655360 ! i
            + nconv (scaled_unit N 1) (scaled_unit N 655360) N i mod RLWE_Q) RLWE_Q
          = (if i = 0 then 1310720 else 0)"
      using lt iN by (simp add: nconv_scaled_unit_right scaled_unit_nth)
                     (simp add: RLWE_Q_def bigint_rem_def)
    then show "\<exists>c. centeredMod (bigint_rem (scaled_unit MSG_SLOTS 655360 ! i
                  + nconv (scaled_unit N 1) (scaled_unit N 655360) N i mod RLWE_Q) RLWE_Q)
                  RLWE_Q = Inr c \<and> round_slot c = scaled_unit MSG_SLOTS 2 ! i"
      using lt by (simp add: centeredMod_values round_slot_values scaled_unit_nth)
  qed
  then show ?thesis by (simp add: assemble_scaled_unit)
qed

theorem rlwe_round_trip_plus_sign_counterexample:
  "negacyclicMulModQ (scaled_unit N 655360) (scaled_unit N 1) N RLWE_Q
     = Inr (scaled_unit N 655360)
   \<and> rlweEncrypt \<lparr>pk_a = scaled_unit N 655360, pk_b = scaled_unit N 655360\<rparr>
       unit_noise_bytes 0 0
     = Inr \<lparr>c0Sparse = scaled_unit MSG_SLOTS 655360, c1 = scaled_unit N 655360,
            rSigned = scaled_unit N 1, e1Signed = replicate MSG_SLOTS 0,
            e2Signed = replicate N 0, msg = replicate MSG_SLOTS 0\<rparr>
   \<and> rlweDecrypt (scaled_unit MSG_SLOTS 655360) (scaled_unit N 655360) (scaled_unit N 1)
     = Inr \<lparr>ownerX = 2, ownerY = 0\<rparr>"
proof -
  have "negacyclicMulModQ (scaled_unit N 655360) (scaled_unit N 1) N RLWE_Q
        = Inr (scaled_unit N 655360)"
    by (rule mul_scaled_units) (simp_all add: RLWE_Q_def)
  then show ?thesis
    using rlweEncrypt_plus_key rlweDecrypt_plus_key unfolding plus_key_def by simp
qed

theorem rlwe_round_trip_witness:
  "length (scaled_unit N 1) = N \<and> (1::int) + 0 \<le> 106
   \<and> negacyclicMulModQ (scaled_unit N 1) (scaled_unit N 1) N RLWE_Q = Inr (scaled_unit N 1)
   \<and> (\<exists>ct. rlweEncrypt \<lparr>pk_a = scaled_unit N 1, pk_b = scaled_unit N 167772160\<rparr>
             unit_noise_bytes 5 7 = Inr ct
         \<and> rlweDecrypt (c0Sparse ct) (c1 ct) (scaled_unit N 1) = Inr \<lparr>ownerX = 5, ownerY = 7\<rparr>)"
proof -
  let ?pk = "\<lparr>pk_a = scaled_unit N 1, pk_b = scaled_unit N 167772160\<rparr>"
  have mul: "negacyclicMulModQ (pk_a ?pk) (scaled_unit N 1) N RLWE_Q = Inr (scaled_unit N 1)"
    using mul_scaled_units[of 1] by (simp add: RLWE_Q_def)
  have sk: "scaled_unit N 1 = map (\<lambda>v. v mod RLWE_Q) (scaled_unit N 1)"
    using scaled_unit_mod[of 1 N] by (simp add: RLWE_Q_def)
  have key: "\<forall>k<N. (pk_b ?pk ! k + scaled_unit N 1 ! k) mod RLWE_Q
                = replicate N 0 ! k mod RLWE_Q"
    by (simp add: scaled_unit_nth RLWE_Q_def)
  have small: "\<forall>i<N. \<bar>scaled_unit N 1 ! i\<bar> \<le> 1" "\<forall>i<N. \<bar>replicate N (0::int) ! i\<bar> \<le> 0"
    by (simp_all add: scaled_unit_nth)
  have "\<exists>ct. rlweEncrypt ?pk unit_noise_bytes 5 7 = Inr ct
         \<and> rlweDecrypt (c0Sparse ct) (c1 ct) (scaled_unit N 1) = Inr \<lparr>ownerX = 5, ownerY = 7\<rparr>"
    by (rule rlwe_round_trip[where s = "scaled_unit N 1" and e = "replicate N 0"
          and Bs = 1 and Be = 0 and as = "scaled_unit N 1", OF _ _ _ _ small _ sk mul key])
       simp_all
  then show ?thesis using mul by simp
qed

section \<open>Threshold invariance of the reconstruction\<close>

lemma modPow_loop_power:
  "0 \<le> r \<Longrightarrow> 0 \<le> b \<Longrightarrow> 0 < m \<Longrightarrow>
   modPow_loop r b e m = (if 0 < e then (r * b ^ nat e) mod m else r)"
proof (induction r b e m rule: modPow_loop.induct)
  case (1 result base exp m)
  show ?case
  proof (cases "0 < exp")
    case False
    then show ?thesis by (simp add: modPow_loop_unfold(2))
  next
    case True
    define r' where "r' = (if exp AND 1 \<noteq> 0 then bigint_rem (result * base) m else result)"
    define b' where "b' = bigint_rem (base * base) m"
    define e' where "e' = drop_bit 1 exp"
    have step: "modPow_loop result base exp m = modPow_loop r' b' e' m"
      unfolding r'_def b'_def e'_def using True by (rule modPow_loop_unfold(1))
    have b': "b' = (base * base) mod m" "0 \<le> b'"
      using "1.prems" by (simp_all add: b'_def bigint_rem_nonneg)
    have r': "0 \<le> r'"
      using "1.prems" by (simp add: r'_def bigint_rem_nonneg)
    have e': "e' = exp div 2" by (simp add: e'_def drop_bit_eq_div)
    have IH: "modPow_loop r' b' e' m = (if 0 < e' then (r' * b' ^ nat e') mod m else r')"
      unfolding r'_def b'_def e'_def
      by (rule "1.IH"[OF True]) (use r' b' "1.prems" in \<open>simp_all add: r'_def b'_def\<close>)
    have sq: "(x * b' ^ n) mod m = (x * base ^ (2 * n)) mod m" for x n
    proof -
      have "b' ^ n mod m = (base * base) ^ n mod m" unfolding b'(1) by (rule power_mod)
      then have "(x * b' ^ n) mod m = (x * (base * base) ^ n) mod m"
        by (rule mod_mult_cong[OF refl])
      then show ?thesis by (simp add: power_mult power2_eq_square)
    qed
    show ?thesis
    proof (cases "exp AND 1 \<noteq> 0")
      case odd: True
      then have o: "odd exp" by (simp add: and_one_eq even_iff_mod_2_eq_zero)
      have rv: "r' = (result * base) mod m"
        using odd "1.prems" by (simp add: r'_def bigint_rem_nonneg)
      have ex: "nat exp = Suc (2 * nat e')"
        using o True unfolding e' by (auto elim!: oddE simp: nat_add_distrib nat_mult_distrib)
      show ?thesis
      proof (cases "0 < e'")
        case False
        then have "e' = 0" using True e' by simp
        then show ?thesis using step IH True rv ex by simp
      next
        case pos: True
        have "(r' * b' ^ nat e') mod m = (r' * base ^ (2 * nat e')) mod m" by (rule sq)
        also have "\<dots> = (result * base * base ^ (2 * nat e')) mod m"
          unfolding rv by (simp add: mod_mult_left_eq)
        finally show ?thesis using step IH True pos ex by (simp add: mult.assoc)
      qed
    next
      case even: False
      then have ev: "even exp" by (simp add: and_one_eq even_iff_mod_2_eq_zero)
      have rv: "r' = result" using even by (simp add: r'_def)
      have pos: "0 < e'" using ev True unfolding e' by (auto elim!: evenE)
      have ex: "nat exp = 2 * nat e'"
        using ev True unfolding e' by (auto elim!: evenE simp: nat_mult_distrib)
      have "(r' * b' ^ nat e') mod m = (r' * base ^ (2 * nat e')) mod m" by (rule sq)
      then show ?thesis using step IH True pos ex rv by simp
    qed
  qed
qed

definition fermat_unit :: "int \<Rightarrow> bool" where
  "fermat_unit d \<longleftrightarrow> (d mod BN254_P) ^ nat (BN254_P - 1) mod BN254_P = 1"

lemma BN254_P_gt2: "2 < BN254_P"
  by (simp add: BN254_P_def)

lemma fermat_unit_inverse:
  assumes "fermat_unit d"
  shows "(d mod BN254_P * modPow_loop 1 (d mod BN254_P) (BN254_P - 2) BN254_P) mod BN254_P = 1"
    and "0 \<le> modPow_loop 1 (d mod BN254_P) (BN254_P - 2) BN254_P"
proof -
  let ?D = "d mod BN254_P"
  have D: "0 \<le> ?D" using BN254_P_pos by simp
  have e: "0 < BN254_P - 2" using BN254_P_gt2 by simp
  have mp: "modPow_loop 1 ?D (BN254_P - 2) BN254_P = ?D ^ nat (BN254_P - 2) mod BN254_P"
    using modPow_loop_power[OF _ D BN254_P_pos, of 1 "BN254_P - 2"] e by simp
  show "0 \<le> modPow_loop 1 ?D (BN254_P - 2) BN254_P"
    unfolding mp using BN254_P_pos by simp
  have n: "nat (BN254_P - 1) = Suc (nat (BN254_P - 2))" using BN254_P_gt2 by simp
  have "(?D * (?D ^ nat (BN254_P - 2) mod BN254_P)) mod BN254_P
        = (?D * ?D ^ nat (BN254_P - 2)) mod BN254_P"
    by (rule mod_mult_right_eq)
  also have "\<dots> = ?D ^ nat (BN254_P - 1) mod BN254_P" unfolding n by simp
  also have "\<dots> = 1" using assms unfolding fermat_unit_def .
  finally show "(?D * modPow_loop 1 ?D (BN254_P - 2) BN254_P) mod BN254_P = 1"
    unfolding mp .
qed

lemma fermat_unit_minus:
  assumes "fermat_unit d"
  shows "fermat_unit (- d)"
proof -
  have ev: "even (nat (BN254_P - 1))" by (simp add: BN254_P_def)
  have "((- d) mod BN254_P) ^ nat (BN254_P - 1) mod BN254_P = (- d) ^ nat (BN254_P - 1) mod BN254_P"
    by (rule power_mod)
  also have "\<dots> = d ^ nat (BN254_P - 1) mod BN254_P" using ev by simp
  also have "\<dots> = (d mod BN254_P) ^ nat (BN254_P - 1) mod BN254_P"
    by (rule power_mod[symmetric])
  finally show ?thesis using assms unfolding fermat_unit_def by simp
qed

lemma lagrange_at_zero:
  fixes p :: int
  assumes "p dvd D1 * i1 - 1" "p dvd D2 * i2 - 1"
    and "p dvd D1 - (x1 - x2)" "p dvd D2 - (x2 - x1)"
    and "p dvd f2 + x2" "p dvd f1 + x1"
    and "p dvd y1 - (a + b * x1)" "p dvd y2 - (a + b * x2)"
  shows "p dvd y1 * f2 * i1 + y2 * f1 * i2 - a"
  using assms by algebra


lemma dvd_mod_minus_self:
  fixes p z :: int
  shows "p dvd z mod p - z"
  using dvd_minus_mod[of p z] by (simp only: dvd_diff_commute)

lemma dvd_of_mod_eq_one:
  fixes p z :: int
  assumes "1 < p" "z mod p = 1"
  shows "p dvd z - 1"
proof -
  have "z mod p = 1 mod p" using assms by simp
  then show ?thesis by (simp only: mod_eq_dvd_iff)
qed

lemma negated_x_factor:
  "0 \<le> bigint_rem (- x) BN254_P + BN254_P"
  "BN254_P dvd (bigint_rem (- x) BN254_P + BN254_P) + x"
proof -
  show "0 \<le> bigint_rem (- x) BN254_P + BN254_P"
    using bigint_rem_range[OF BN254_P_pos, of "- x"] by simp
  have "bigint_rem (- x) BN254_P mod BN254_P = (- x) mod BN254_P"
    using BN254_P_pos by (rule bigint_rem_cong)
  then have "BN254_P dvd bigint_rem (- x) BN254_P - (- x)" by (simp only: mod_eq_dvd_iff)
  then have "BN254_P dvd (bigint_rem (- x) BN254_P - (- x)) + BN254_P" by simp
  then show "BN254_P dvd (bigint_rem (- x) BN254_P + BN254_P) + x" by (simp add: algebra_simps)
qed

lemma shamir_on_line:
  assumes u: "fermat_unit (x1 - x2)"
    and y1: "y1 = (a + b * x1) mod BN254_P" and y2: "y2 = (a + b * x2) mod BN254_P"
  shows "shamirReconstructField [(x1, y1), (x2, y2)] 2 = Inr (a mod BN254_P)"
proof -
  define p where "p = BN254_P"
  define D1 where "D1 = (x1 - x2) mod p"
  define D2 where "D2 = (x2 - x1) mod p"
  define i1 where "i1 = modPow_loop 1 D1 (p - 2) p"
  define i2 where "i2 = modPow_loop 1 D2 (p - 2) p"
  define f1 where "f1 = bigint_rem (- x1) p + p"
  define f2 where "f2 = bigint_rem (- x2) p + p"
  have p: "0 < p" "1 < p" using BN254_P_pos BN254_P_gt2 by (simp_all add: p_def)
  have u': "fermat_unit (x2 - x1)" using fermat_unit_minus[OF u] by simp
  have inv1: "(D1 * i1) mod p = 1" "0 \<le> i1"
    using fermat_unit_inverse[OF u] by (simp_all add: D1_def i1_def p_def)
  have inv2: "(D2 * i2) mod p = 1" "0 \<le> i2"
    using fermat_unit_inverse[OF u'] by (simp_all add: D2_def i2_def p_def)
  have f: "0 \<le> f1" "0 \<le> f2" "p dvd f1 + x1" "p dvd f2 + x2"
    using negated_x_factor[of x1] negated_x_factor[of x2] by (simp_all add: f1_def f2_def p_def)
  have y: "0 \<le> y1" "0 \<le> y2" using p(1) by (simp_all add: y1 y2 p_def)
  have yd: "p dvd y1 - (a + b * x1)" "p dvd y2 - (a + b * x2)"
    unfolding y1 y2 p_def by (rule dvd_mod_minus_self)+
  have Dd: "p dvd D1 - (x1 - x2)" "p dvd D2 - (x2 - x1)"
    unfolding D1_def D2_def by (rule dvd_mod_minus_self)+
  have id: "p dvd D1 * i1 - 1" "p dvd D2 * i2 - 1"
    using inv1(1) inv2(1) p(2) by (simp_all add: dvd_of_mod_eq_one)
  have main: "p dvd y1 * f2 * i1 + y2 * f1 * i2 - a"
    by (rule lagrange_at_zero[OF id Dd f(4,3) yd])
  have t1: "bigint_rem (bigint_rem (y1 * f2) p * i1) p = (y1 * f2 * i1) mod p"
    using y(1) f(2) inv1(2) p(1) by (simp add: bigint_rem_nonneg mod_mult_left_eq)
  have t2: "bigint_rem (bigint_rem (y2 * f1) p * i2) p = (y2 * f1 * i2) mod p"
    using y(2) f(1) inv2(2) p(1) by (simp add: bigint_rem_nonneg mod_mult_left_eq)
  have "bigint_rem (bigint_rem ((y1 * f2 * i1) mod p) p + (y2 * f1 * i2) mod p) p
        = ((y1 * f2 * i1) mod p + (y2 * f1 * i2) mod p) mod p"
    using p(1) by (simp add: bigint_rem_nonneg)
  also have "\<dots> = (y1 * f2 * i1 + y2 * f1 * i2) mod p" by (rule mod_add_eq)
  also have "\<dots> = a mod p" using main by (simp only: mod_eq_dvd_iff)
  finally have "bigint_rem (bigint_rem (bigint_rem (bigint_rem (y1 * f2) p * i1) p) p
                  + bigint_rem (bigint_rem (y2 * f1) p * i2) p) p = a mod p"
    unfolding t1 t2 .
  then show ?thesis
    unfolding shamir_two_shares
    by (simp only: p_def D1_def D2_def i1_def i2_def f1_def f2_def)
qed

definition shares_on_line :: "(nat \<Rightarrow> int) \<Rightarrow> (nat \<Rightarrow> int) \<Rightarrow> ShareFile \<Rightarrow> bool" where
  \<comment> \<open>a share of a 2-of-n sharing: at ring position \<open>i\<close> its point lies on the line
      \<open>sec i + slope i * X\<close> over the scalar field\<close>
  "shares_on_line sec slope s \<longleftrightarrow>
     threshold s = 2 \<and> N \<le> length (coefficients s)
     \<and> (\<forall>i<N. sc_y (coefficients s ! i)
                = (sec i + slope i * sc_x (coefficients s ! i)) mod BN254_P)"

definition x_differ_in_field :: "ShareFile \<Rightarrow> ShareFile \<Rightarrow> bool" where
  \<comment> \<open>at every ring position the x-coordinates of the two shares differ in the scalar field:
      their difference \<open>d\<close> is a non-zero field element, \<open>d ^ (p - 1) = 1 (mod p)\<close>\<close>
  "x_differ_in_field s t \<longleftrightarrow>
     (\<forall>i<N. fermat_unit (sc_x (coefficients s ! i) - sc_x (coefficients t ! i)))"

definition secret_coeff :: "int \<Rightarrow> int" where
  \<comment> \<open>the ring coefficient of the field element \<open>v\<close>: centred representative, then mod \<open>Q\<close>\<close>
  "secret_coeff v =
     (if v mod BN254_P > BN254_P div 2 then v mod BN254_P - BN254_P else v mod BN254_P)
       mod RLWE_Q"

lemma reconstruct_coeff_on_line:
  assumes "shares_on_line sec slope s" "shares_on_line sec slope t" "x_differ_in_field s t" "i < N"
  shows "reconstruct_coeff s t i = Inr (secret_coeff (sec i))"
proof -
  let ?p1 = "coefficients s ! i" and ?p2 = "coefficients t ! i"
  have len: "i < length (coefficients s)" "i < length (coefficients t)"
    using assms(1,2,4) by (simp_all add: shares_on_line_def)
  have th: "threshold s = 2" using assms(1) by (simp add: shares_on_line_def)
  have y1: "sc_y ?p1 = (sec i + slope i * sc_x ?p1) mod BN254_P"
    using assms(1,4) by (simp add: shares_on_line_def)
  have y2: "sc_y ?p2 = (sec i + slope i * sc_x ?p2) mod BN254_P"
    using assms(2,4) by (simp add: shares_on_line_def)
  have u: "fermat_unit (sc_x ?p1 - sc_x ?p2)"
    using assms(3,4) by (simp add: x_differ_in_field_def)
  have val: "shamirReconstructField [(sc_x ?p1, sc_y ?p1), (sc_x ?p2, sc_y ?p2)] 2
             = Inr (sec i mod BN254_P)"
    by (rule shamir_on_line[OF u y1 y2])
  show ?thesis
    using len th val
    by (simp add: reconstruct_coeff_def at_in_range centeredMod_value BN254_P_pos
        mod_norm_eq RLWE_Q_pos secret_coeff_def)
qed

lemma reconstructSk_on_line:
  assumes "shares_on_line sec slope s" "shares_on_line sec slope t" "x_differ_in_field s t"
  shows "reconstructSk s t = Inr (map (\<lambda>i. secret_coeff (sec i)) [0..<N])"
  unfolding reconstructSk_def
  by (rule mapE_all_Inr) (simp add: reconstruct_coeff_on_line[OF assms])

lemma x_differ_in_field_distinct:
  assumes "x_differ_in_field s t" "i < N"
  shows "sc_x (coefficients s ! i) mod BN254_P \<noteq> sc_x (coefficients t ! i) mod BN254_P"
proof
  let ?d = "sc_x (coefficients s ! i) - sc_x (coefficients t ! i)"
  assume "sc_x (coefficients s ! i) mod BN254_P = sc_x (coefficients t ! i) mod BN254_P"
  then have z: "?d mod BN254_P = 0" by (simp add: mod_eq_dvd_iff dvd_eq_mod_eq_0)
  have "0 < nat (BN254_P - 1)" using BN254_P_gt2 by simp
  then have pw: "(0::int) ^ nat (BN254_P - 1) = 0" by (rule zero_power)
  have "(?d mod BN254_P) ^ nat (BN254_P - 1) mod BN254_P = 0" unfolding z pw by simp
  then show False using assms by (simp add: x_differ_in_field_def fermat_unit_def)
qed









section \<open>Fermat's little theorem and the x-coordinates of the shares\<close>

definition is_prime :: "nat \<Rightarrow> bool" where
  "is_prime p \<longleftrightarrow> 1 < p \<and> (\<forall>d. d dvd p \<longrightarrow> d = 1 \<or> d = p)"

lemma is_primeD: "is_prime p \<Longrightarrow> d dvd p \<Longrightarrow> d = 1 \<or> d = p"
  by (simp add: is_prime_def)

lemma is_prime_gt1: "is_prime p \<Longrightarrow> 1 < p"
  by (simp add: is_prime_def)

lemma prime_coprime:
  assumes "is_prime p" "\<not> p dvd a"
  shows "coprime p a"
proof (rule coprimeI)
  fix c assume c: "c dvd p" "c dvd a"
  then have "c = 1 \<or> c = p" using is_primeD[OF assms(1)] by simp
  then show "is_unit c" using c(2) assms(2) by auto
qed

lemma prime_dvd_mult:
  assumes "is_prime p" "p dvd a * b"
  shows "p dvd a \<or> p dvd b"
proof (cases "p dvd a")
  case True
  then show ?thesis by simp
next
  case False
  then have "coprime p a" by (rule prime_coprime[OF assms(1)])
  then show ?thesis using assms(2) by (simp add: coprime_dvd_mult_right_iff)
qed

lemma prime_dvd_binomial:
  assumes "is_prime p" "0 < k" "k < p"
  shows "p dvd (p choose k)"
proof -
  obtain n where n: "p = Suc n" using is_prime_gt1[OF assms(1)] by (cases p) auto
  obtain j where j: "k = Suc j" using assms(2) by (cases k) auto
  have "Suc n dvd Suc j * (Suc n choose Suc j)"
    by (simp only: Suc_times_binomial dvd_triv_left)
  then have "p dvd k * (p choose k)" unfolding n j .
  moreover have "\<not> p dvd k" using assms(2,3) by (simp add: nat_dvd_not_less)
  ultimately show ?thesis using prime_dvd_mult[OF assms(1)] by blast
qed

lemma sum_ends:
  fixes g :: "nat \<Rightarrow> nat"
  assumes "0 < p"
  shows "(\<Sum>k\<le>p. g k) = g 0 + (\<Sum>k\<in>{0<..<p}. g k) + g p"
proof -
  have "{..p} = insert 0 (insert p {0<..<p})" using assms by auto
  then show ?thesis using assms by (simp add: add.commute add.left_commute)
qed

lemma fermat_power:
  assumes "is_prime p"
  shows "a ^ p mod p = a mod p"
proof (induction a)
  case 0
  have "0 < p" using is_prime_gt1[OF assms] by simp
  then show ?case by (simp add: power_0_left)
next
  case (Suc a)
  have p0: "0 < p" using is_prime_gt1[OF assms] by simp
  have "(a + 1) ^ p = (\<Sum>k\<le>p. (p choose k) * a ^ k * 1 ^ (p - k))"
    using binomial[of a 1 p] by simp
  also have "\<dots> = (\<Sum>k\<le>p. (p choose k) * a ^ k)" by simp
  also have "\<dots> = 1 + (\<Sum>k\<in>{0<..<p}. (p choose k) * a ^ k) + a ^ p"
    using sum_ends[OF p0, of "\<lambda>k. (p choose k) * a ^ k"] by simp
  finally have e: "Suc a ^ p = (\<Sum>k\<in>{0<..<p}. (p choose k) * a ^ k) + (1 + a ^ p)"
    by simp
  have "p dvd (\<Sum>k\<in>{0<..<p}. (p choose k) * a ^ k)"
    by (rule dvd_sum) (simp add: prime_dvd_binomial[OF assms])
  then have "(\<Sum>k\<in>{0<..<p}. (p choose k) * a ^ k) mod p = 0"
    by (simp add: dvd_eq_mod_eq_0)
  then have "((\<Sum>k\<in>{0<..<p}. (p choose k) * a ^ k) + (1 + a ^ p)) mod p
             = (0 + (1 + a ^ p)) mod p"
    by (simp only: mod_add_left_eq[symmetric, of "\<Sum>k\<in>{0<..<p}. (p choose k) * a ^ k"])
  then have "Suc a ^ p mod p = (1 + a ^ p) mod p"
    unfolding e by simp
  also have "\<dots> = (1 + a ^ p mod p) mod p" by (simp add: mod_Suc_eq)
  also have "\<dots> = Suc a mod p" using Suc by (simp add: mod_Suc_eq)
  finally show ?case .
qed

lemma fermat_little:
  assumes "is_prime p" "\<not> p dvd a"
  shows "a ^ (p - 1) mod p = 1"
proof -
  have p1: "1 < p" by (rule is_prime_gt1[OF assms(1)])
  have a0: "0 < a" using assms(2) by (cases a) auto
  have ge: "a \<le> a ^ p" using power_increasing[of 1 p a] a0 p1 by simp
  have "a ^ p mod p = a mod p" by (rule fermat_power[OF assms(1)])
  then have "p dvd a ^ p - a" using ge by (simp add: mod_eq_dvd_iff_nat)
  moreover have "a ^ p - a = a * (a ^ (p - 1) - 1)"
  proof -
    have "a ^ p = a * a ^ (p - 1)" using p1 by (cases p) simp_all
    then show ?thesis by (simp add: right_diff_distrib')
  qed
  ultimately have "p dvd a ^ (p - 1) - 1"
    using prime_dvd_mult[OF assms(1)] assms(2) by auto
  moreover have "1 \<le> a ^ (p - 1)" using a0 by simp
  ultimately have "a ^ (p - 1) mod p = 1 mod p"
    using mod_eq_dvd_iff_nat[of 1 "a ^ (p - 1)" p] by blast
  then show ?thesis using p1 by simp
qed

lemma fermat_unit_of_prime:
  assumes "is_prime (nat BN254_P)" "x mod BN254_P \<noteq> x' mod BN254_P"
  shows "fermat_unit (x - x')"
proof -
  define d where "d = nat ((x - x') mod BN254_P)"
  define p where "p = nat BN254_P"
  have P: "BN254_P = int p" using BN254_P_pos by (simp add: p_def)
  have dm: "(x - x') mod BN254_P = int d" using BN254_P_pos by (simp add: d_def)
  have "(x - x') mod BN254_P \<noteq> 0"
    using assms(2) by (simp add: mod_eq_dvd_iff dvd_eq_mod_eq_0)
  then have d0: "0 < d" using dm by simp
  have "(x - x') mod BN254_P < BN254_P" using BN254_P_pos by simp
  then have "int d < BN254_P" unfolding dm .
  then have dp: "d < p" unfolding P by simp
  have nd: "\<not> p dvd d" using d0 dp by (auto dest: dvd_imp_le)
  have fl: "d ^ (p - 1) mod p = 1" using assms(1) nd unfolding p_def[symmetric] by (rule fermat_little)
  have e: "nat (BN254_P - 1) = p - 1" by (simp add: p_def)
  have "(int d) ^ (p - 1) mod int p = int (d ^ (p - 1) mod p)"
    by (simp add: zmod_int)
  then have "(int d) ^ (p - 1) mod int p = 1" unfolding fl by simp
  then have "(int d) ^ (p - 1) mod BN254_P = 1" unfolding P .
  then show ?thesis unfolding fermat_unit_def dm e .
qed

lemma reconstructSk_distinct_x_of_prime:
  assumes "is_prime (nat BN254_P)"
    and "shares_on_line sec slope s" "shares_on_line sec slope t"
    and "\<And>i. i < N \<Longrightarrow>
           sc_x (coefficients s ! i) mod BN254_P \<noteq> sc_x (coefficients t ! i) mod BN254_P"
  shows "reconstructSk s t = Inr (map (\<lambda>i. secret_coeff (sec i)) [0..<N])"
proof (rule reconstructSk_on_line[OF assms(2,3)])
  show "x_differ_in_field s t"
    unfolding x_differ_in_field_def
    using fermat_unit_of_prime[OF assms(1) assms(4)] by simp
qed

end
